theory Spec2Isabelle
  imports Main "HOL-Library.Word"
begin

unbundle bit_operations_syntax

section \<open>The paged memory bus of jsSMS (\<^verbatim>\<open>src/utils.js\<close>)\<close>

text \<open>
  The accessors of \<^verbatim>\<open>JSSMS.Utils\<close> are mixed into the emulated CPU object: they read
  \<^verbatim>\<open>this.memReadMap\<close> and \<^verbatim>\<open>this.memWriteMap\<close>, two arrays of references to backing
  blocks indexed by \<^verbatim>\<open>address >> 10\<close>, and call \<^verbatim>\<open>this.page\<close> on writes to the top four
  addresses. Each of them exists twice: the closure chosen when \<^verbatim>\<open>SUPPORT_DATAVIEW\<close> holds
  works on \<^verbatim>\<open>DataView\<close> blocks, the other one on plain arrays of numbers. The two closures
  are embedded as two functions, suffixed \<open>_dv\<close> and \<open>_arr\<close>.
\<close>

subsection \<open>JavaScript numbers and bitwise operators\<close>

text \<open>
  Addresses, values and positions are integer-valued JavaScript numbers, modelled as
  \<^typ>\<open>int\<close>. The bitwise operators first convert their operands to signed 32-bit
  integers (\<^verbatim>\<open>ToInt32\<close>); the comparison \<^verbatim>\<open>address >= 0xFFFC\<close> and \<^verbatim>\<open>++address\<close> work on
  the number itself.
\<close>

definition ToInt32 :: "int \<Rightarrow> int" where
  "ToInt32 x = signed_take_bit 31 x"

text \<open>\<^verbatim>\<open>x >> n\<close> for a literal shift count \<open>n < 32\<close>.\<close>

definition js_sar :: "int \<Rightarrow> nat \<Rightarrow> int" where
  "js_sar x n = drop_bit n (ToInt32 x)"

text \<open>\<^verbatim>\<open>x << n\<close> for a literal shift count \<open>n < 32\<close>.\<close>

definition js_shl :: "int \<Rightarrow> nat \<Rightarrow> int" where
  "js_shl x n = ToInt32 (push_bit n (ToInt32 x))"

text \<open>\<^verbatim>\<open>x & y\<close> and \<^verbatim>\<open>x | y\<close>.\<close>

definition js_and :: "int \<Rightarrow> int \<Rightarrow> int" where
  "js_and x y = ToInt32 x AND ToInt32 y"

definition js_or :: "int \<Rightarrow> int \<Rightarrow> int" where
  "js_or x y = ToInt32 x OR ToInt32 y"

text \<open>
  An array element may be \<^verbatim>\<open>undefined\<close> (\<open>None\<close>): a hole or an index that was never
  written. \<^verbatim>\<open>ToInt32(undefined)\<close> is 0.
\<close>

type_synonym jsval = "int option"

definition ToInt32v :: "jsval \<Rightarrow> int" where
  "ToInt32v x = (case x of None \<Rightarrow> 0 | Some n \<Rightarrow> ToInt32 n)"

subsection \<open>Errors and external effects\<close>

text \<open>
  Reading a property of \<^verbatim>\<open>undefined\<close> throws a \<^verbatim>\<open>TypeError\<close>; a \<^verbatim>\<open>DataView\<close> accessor
  outside the view throws a \<^verbatim>\<open>RangeError\<close>.
\<close>

datatype js_error = TypeError | RangeError

text \<open>
  What an accessor does besides reading and writing memory: the \<^verbatim>\<open>console.error\<close> line
  and the \<^verbatim>\<open>debugger\<close> statement of the \<^verbatim>\<open>DEBUG\<close> block, and the call of \<^verbatim>\<open>this.page\<close>.
\<close>

datatype event = ConsoleError int int int | Debugger | PageCall int int

subsection \<open>Backing blocks\<close>

type_synonym ref = nat

text \<open>
  A \<^verbatim>\<open>DataView\<close> as \<^verbatim>\<open>JSSMS.Utils.Array\<close> creates it, over an \<^verbatim>\<open>ArrayBuffer\<close> of its own:
  the bytes of the buffer.
\<close>

type_synonym dataview = "8 word list"

definition byteLength :: "dataview \<Rightarrow> int" where
  "byteLength dv = int (length dv)"

definition getUint8 :: "dataview \<Rightarrow> int \<Rightarrow> js_error + int" where
  "getUint8 dv i =
     (if 0 \<le> i \<and> i + 1 \<le> byteLength dv then Inr (uint (dv ! nat i)) else Inl RangeError)"

definition getInt8 :: "dataview \<Rightarrow> int \<Rightarrow> js_error + int" where
  "getInt8 dv i =
     (if 0 \<le> i \<and> i + 1 \<le> byteLength dv then Inr (sint (dv ! nat i)) else Inl RangeError)"

definition setInt8 :: "dataview \<Rightarrow> int \<Rightarrow> int \<Rightarrow> js_error + dataview" where
  "setInt8 dv i v =
     (if 0 \<le> i \<and> i + 1 \<le> byteLength dv then Inr (dv[nat i := word_of_int v])
      else Inl RangeError)"

definition getUint16 :: "dataview \<Rightarrow> int \<Rightarrow> bool \<Rightarrow> js_error + int" where
  "getUint16 dv i littleEndian =
     (if 0 \<le> i \<and> i + 2 \<le> byteLength dv
      then (let b0 = uint (dv ! nat i); b1 = uint (dv ! nat (i + 1))
            in Inr (if littleEndian then b0 + 256 * b1 else 256 * b0 + b1))
      else Inl RangeError)"

text \<open>
  A plain array of numbers, as the properties the code reads and writes: the element at an
  integer key, \<open>None\<close> where it is \<^verbatim>\<open>undefined\<close>. Reading past the end yields \<^verbatim>\<open>undefined\<close>
  and writing there extends the array, so neither fails.
\<close>

type_synonym jsarray = "int \<Rightarrow> jsval"

subsection \<open>The CPU object\<close>

text \<open>
  \<open>heap\<close> is the store of block objects, \<open>memReadMap\<close> and \<open>memWriteMap\<close> hold a reference
  or \<^verbatim>\<open>undefined\<close> for each page. The record is extensible: the other fields of the object
  live in its extension.
\<close>

record 'b cpu =
  heap :: "ref \<Rightarrow> 'b"
  memReadMap :: "ref option list"
  memWriteMap :: "ref option list"

text \<open>\<^verbatim>\<open>map[i]\<close> on an array of references: \<^verbatim>\<open>undefined\<close> outside the array.\<close>

definition lookup :: "ref option list \<Rightarrow> int \<Rightarrow> ref option" where
  "lookup m i = (if 0 \<le> i \<and> i < int (length m) then m ! nat i else None)"

text \<open>The result of an accessor: the effects in order, and the value or the error thrown.\<close>

type_synonym 'a outcome = "event list \<times> (js_error + 'a)"

text \<open>
  The \<^verbatim>\<open>DEBUG\<close> block of the three \<^verbatim>\<open>DataView\<close> accessors, which differ in the map only.
  It logs and stops in the debugger; execution then continues with the access.
\<close>

definition debug_check :: "bool \<Rightarrow> ref option list \<Rightarrow> (ref \<Rightarrow> dataview) \<Rightarrow> int \<Rightarrow> event list" where
  "debug_check DEBUG m h address =
     (if DEBUG \<and> (js_sar address 10 \<ge> int (length m) \<or>
                   (case lookup m (js_sar address 10) of
                      None \<Rightarrow> True
                    | Some r \<Rightarrow> js_and address 0x3FF \<ge> byteLength (h r)))
      then [ConsoleError address (js_sar address 10) (js_and address 0x3FF), Debugger]
      else [])"

subsection \<open>\<^verbatim>\<open>writeMem\<close>\<close>

text \<open>
  \<open>page\<close> is \<^verbatim>\<open>this.page\<close>, the bank-switching handler, which is defined outside
  \<^verbatim>\<open>utils.js\<close>: it receives the register index, the value and the object, and returns the
  object as it leaves it.
\<close>

definition writeMem_dv ::
  "bool \<Rightarrow> (int \<Rightarrow> int \<Rightarrow> (dataview, 'x) cpu_scheme \<Rightarrow> (dataview, 'x) cpu_scheme) \<Rightarrow>
   (dataview, 'x) cpu_scheme \<Rightarrow> int \<Rightarrow> int \<Rightarrow> (dataview, 'x) cpu_scheme outcome" where
  "writeMem_dv DEBUG page this address v =
     (let dbg = debug_check DEBUG (memWriteMap this) (heap this) address in
      case lookup (memWriteMap this) (js_sar address 10) of
        None \<Rightarrow> (dbg, Inl TypeError)
      | Some r \<Rightarrow>
          (case setInt8 (heap this r) (js_and address 0x3FF) v of
             Inl e \<Rightarrow> (dbg, Inl e)
           | Inr b \<Rightarrow>
               (let this' = this\<lparr>heap := (heap this)(r := b)\<rparr> in
                if address \<ge> 0xFFFC
                then (dbg @ [PageCall (js_and address 3) v], Inr (page (js_and address 3) v this'))
                else (dbg, Inr this'))))"

definition writeMem_arr ::
  "(int \<Rightarrow> int \<Rightarrow> (jsarray, 'x) cpu_scheme \<Rightarrow> (jsarray, 'x) cpu_scheme) \<Rightarrow>
   (jsarray, 'x) cpu_scheme \<Rightarrow> int \<Rightarrow> int \<Rightarrow> (jsarray, 'x) cpu_scheme outcome" where
  "writeMem_arr page this address v =
     (case lookup (memWriteMap this) (js_sar address 10) of
        None \<Rightarrow> ([], Inl TypeError)
      | Some r \<Rightarrow>
          (let this' = this\<lparr>heap := (heap this)(r := (heap this r)(js_and address 0x3FF := Some v))\<rparr> in
           if address \<ge> 0xFFFC
           then ([PageCall (js_and address 3) v], Inr (page (js_and address 3) v this'))
           else ([], Inr this')))"

subsection \<open>\<^verbatim>\<open>readMem\<close>\<close>

definition readMem_dv :: "bool \<Rightarrow> (dataview, 'x) cpu_scheme \<Rightarrow> int \<Rightarrow> int outcome" where
  "readMem_dv DEBUG this address =
     (debug_check DEBUG (memReadMap this) (heap this) address,
      case lookup (memReadMap this) (js_sar address 10) of
        None \<Rightarrow> Inl TypeError
      | Some r \<Rightarrow> getUint8 (heap this r) (js_and address 0x3FF))"

definition readMem_arr :: "(jsarray, 'x) cpu_scheme \<Rightarrow> int \<Rightarrow> int outcome" where
  "readMem_arr this address =
     ([], case lookup (memReadMap this) (js_sar address 10) of
            None \<Rightarrow> Inl TypeError
          | Some r \<Rightarrow> Inr (js_and (ToInt32v (heap this r (js_and address 0x3FF))) 0xFF))"

subsection \<open>\<^verbatim>\<open>readMemWord\<close>\<close>

text \<open>
  \<open>LITTLE_ENDIAN\<close> is a constant of the build that \<^verbatim>\<open>utils.js\<close> does not define; it is a
  parameter here. In the second operand of \<^verbatim>\<open>|\<close> the address has been incremented by
  \<^verbatim>\<open>++address\<close>, as a number: \<open>0xFFFF\<close> becomes \<open>0x10000\<close>.
\<close>

definition readMemWord_dv :: "bool \<Rightarrow> bool \<Rightarrow> (dataview, 'x) cpu_scheme \<Rightarrow> int \<Rightarrow> int outcome" where
  "readMemWord_dv DEBUG LITTLE_ENDIAN this address =
     (debug_check DEBUG (memReadMap this) (heap this) address,
      if js_and address 0x3FF < 0x3FF
      then (case lookup (memReadMap this) (js_sar address 10) of
              None \<Rightarrow> Inl TypeError
            | Some r \<Rightarrow> getUint16 (heap this r) (js_and address 0x3FF) LITTLE_ENDIAN)
      else (case lookup (memReadMap this) (js_sar address 10) of
              None \<Rightarrow> Inl TypeError
            | Some r \<Rightarrow>
                (case getUint8 (heap this r) (js_and address 0x3FF) of
                   Inl e \<Rightarrow> Inl e
                 | Inr lo \<Rightarrow>
                     (case lookup (memReadMap this) (js_sar (address + 1) 10) of
                        None \<Rightarrow> Inl TypeError
                      | Some r' \<Rightarrow>
                          (case getUint8 (heap this r') (js_and (address + 1) 0x3FF) of
                             Inl e \<Rightarrow> Inl e
                           | Inr hi \<Rightarrow> Inr (js_or lo (js_shl hi 8)))))))"

definition readMemWord_arr :: "(jsarray, 'x) cpu_scheme \<Rightarrow> int \<Rightarrow> int outcome" where
  "readMemWord_arr this address =
     ([], case lookup (memReadMap this) (js_sar address 10) of
            None \<Rightarrow> Inl TypeError
          | Some r \<Rightarrow>
              (let lo = js_and (ToInt32v (heap this r (js_and address 0x3FF))) 0xFF in
               case lookup (memReadMap this) (js_sar (address + 1) 10) of
                 None \<Rightarrow> Inl TypeError
               | Some r' \<Rightarrow>
                   Inr (js_or lo
                     (js_shl (js_and (ToInt32v (heap this r' (js_and (address + 1) 0x3FF))) 0xFF) 8))))"

subsection \<open>\<^verbatim>\<open>copyArrayElements\<close>\<close>

text \<open>
  \<^verbatim>\<open>while (length--)\<close> tests the count before decrementing it and runs the body with the
  decremented count. The loop need not end, so not returning is the value \<open>None\<close>. Source
  and destination are references into the store: they may be the same block.
\<close>

partial_function (option) copyArrayElements_dv ::
  "(ref \<Rightarrow> dataview) \<Rightarrow> ref \<Rightarrow> int \<Rightarrow> ref \<Rightarrow> int \<Rightarrow> int \<Rightarrow> (js_error + (ref \<Rightarrow> dataview)) option" where
  "copyArrayElements_dv h src srcPos dest destPos len =
     (if len \<noteq> 0
      then (case getInt8 (h src) (srcPos + (len - 1)) of
              Inl e \<Rightarrow> Some (Inl e)
            | Inr x \<Rightarrow>
                (case setInt8 (h dest) (destPos + (len - 1)) x of
                   Inl e \<Rightarrow> Some (Inl e)
                 | Inr d \<Rightarrow> copyArrayElements_dv (h(dest := d)) src srcPos dest destPos (len - 1)))
      else Some (Inr h))"

partial_function (option) copyArrayElements_arr ::
  "(ref \<Rightarrow> jsarray) \<Rightarrow> ref \<Rightarrow> int \<Rightarrow> ref \<Rightarrow> int \<Rightarrow> int \<Rightarrow> (js_error + (ref \<Rightarrow> jsarray)) option" where
  "copyArrayElements_arr h src srcPos dest destPos len =
     (if len \<noteq> 0
      then copyArrayElements_arr
             (h(dest := (h dest)(destPos + (len - 1) := h src (srcPos + (len - 1)))))
             src srcPos dest destPos (len - 1)
      else Some (Inr h))"

section \<open>Example objects\<close>

text \<open>A handler that leaves the object alone, and one that rebinds page 0 of the read map.\<close>

definition page_nop :: "int \<Rightarrow> int \<Rightarrow> ('b, 'x) cpu_scheme \<Rightarrow> ('b, 'x) cpu_scheme" where
  "page_nop k v this = this"

definition page_rebind0 :: "int \<Rightarrow> int \<Rightarrow> ('b, 'x) cpu_scheme \<Rightarrow> ('b, 'x) cpu_scheme" where
  "page_rebind0 k v this = this\<lparr>memReadMap := (memReadMap this)[0 := Some 1]\<rparr>"

text \<open>
  Block 0 is 1024 zero bytes, bound for reading and writing as page 0; no other page is
  bound.
\<close>

definition zero_page0_dv :: "dataview cpu" where
  "zero_page0_dv =
     \<lparr>heap = (\<lambda>r. replicate 1024 0),
      memReadMap = Some 0 # replicate 63 None,
      memWriteMap = Some 0 # replicate 63 None\<rparr>"

definition zero_page0_arr :: "jsarray cpu" where
  "zero_page0_arr =
     \<lparr>heap = (\<lambda>r i. if 0 \<le> i \<and> i < 1024 then Some 0 else None),
      memReadMap = Some 0 # replicate 63 None,
      memWriteMap = Some 0 # replicate 63 None\<rparr>"

text \<open>
  All 64 pages bound, for reading and writing, to one block each: page \<open>p\<close> to block \<open>p\<close>,
  1024 bytes that hold the low byte of \<open>p + 1\<close>.
\<close>

definition full_dv :: "dataview cpu" where
  "full_dv =
     \<lparr>heap = (\<lambda>r. replicate 1024 (word_of_nat (r + 1))),
      memReadMap = map Some [0..<64],
      memWriteMap = map Some [0..<64]\<rparr>"

definition full_arr :: "jsarray cpu" where
  "full_arr =
     \<lparr>heap = (\<lambda>r i. if 0 \<le> i \<and> i < 1024 then Some (int r + 1) else None),
      memReadMap = map Some [0..<64],
      memWriteMap = map Some [0..<64]\<rparr>"

text \<open>All 64 pages bound, each to a block of four bytes only.\<close>

definition short_dv :: "dataview cpu" where
  "short_dv =
     \<lparr>heap = (\<lambda>r. replicate 4 0),
      memReadMap = map Some [0..<64],
      memWriteMap = map Some [0..<64]\<rparr>"

definition short_arr :: "jsarray cpu" where
  "short_arr =
     \<lparr>heap = (\<lambda>r i. if 0 \<le> i \<and> i < 4 then Some 0 else None),
      memReadMap = map Some [0..<64],
      memWriteMap = map Some [0..<64]\<rparr>"

text \<open>A store whose blocks all hold the bytes 1 to 5.\<close>

definition digits_dv :: "ref \<Rightarrow> dataview" where
  "digits_dv = (\<lambda>r. [1, 2, 3, 4, 5])"

definition digits_arr :: "ref \<Rightarrow> jsarray" where
  "digits_arr = (\<lambda>r i. if 0 \<le> i \<and> i < 5 then Some (i + 1) else None)"

text \<open>One page, bound for reading and writing to a block that holds the bytes 1 to 5.\<close>

definition digits_page_dv :: "dataview cpu" where
  "digits_page_dv = \<lparr>heap = digits_dv, memReadMap = [Some 0], memWriteMap = [Some 0]\<rparr>"

definition digits_page_arr :: "jsarray cpu" where
  "digits_page_arr = \<lparr>heap = digits_arr, memReadMap = [Some 0], memWriteMap = [Some 0]\<rparr>"

section \<open>Reference formulations\<close>

text \<open>
  \<^verbatim>\<open>readByte(a) | (readByte(a+1) << 8)\<close> as the specification writes it: the two reads from
  left to right, the first error thrown wins.
\<close>

definition compose_word :: "js_error + int \<Rightarrow> js_error + int \<Rightarrow> js_error + int" where
  "compose_word lo hi =
     (case lo of
        Inl e \<Rightarrow> Inl e
      | Inr l \<Rightarrow> (case hi of Inl e \<Rightarrow> Inl e | Inr h \<Rightarrow> Inr (js_or l (js_shl h 8))))"

text \<open>
  The copies that \<open>copyRange\<close> is specified to make, as pairs of a source index and a
  destination index: the offset runs from \<open>n - 1\<close> down to 0.
\<close>

definition copy_schedule :: "nat \<Rightarrow> int \<Rightarrow> int \<Rightarrow> (int \<times> int) list" where
  "copy_schedule n srcPos destPos = map (\<lambda>i. (srcPos + int i, destPos + int i)) (rev [0..<n])"

text \<open>
  Element copies made one after the other, each on the store the previous one left; in the
  \<open>DataView\<close> variant the first accessor that throws ends the sequence.
\<close>

fun copy_all_dv ::
  "(ref \<Rightarrow> dataview) \<Rightarrow> ref \<Rightarrow> ref \<Rightarrow> (int \<times> int) list \<Rightarrow> js_error + (ref \<Rightarrow> dataview)" where
  "copy_all_dv h src dest [] = Inr h"
| "copy_all_dv h src dest ((i, j) # ps) =
     (case getInt8 (h src) i of
        Inl e \<Rightarrow> Inl e
      | Inr x \<Rightarrow>
          (case setInt8 (h dest) j x of
             Inl e \<Rightarrow> Inl e
           | Inr d \<Rightarrow> copy_all_dv (h(dest := d)) src dest ps))"

fun copy_all_arr ::
  "(ref \<Rightarrow> jsarray) \<Rightarrow> ref \<Rightarrow> ref \<Rightarrow> (int \<times> int) list \<Rightarrow> (ref \<Rightarrow> jsarray)" where
  "copy_all_arr h src dest [] = h"
| "copy_all_arr h src dest ((i, j) # ps) =
     copy_all_arr (h(dest := (h dest)(j := h src i))) src dest ps"

text \<open>
  \<^verbatim>\<open>memmove\<close>: the destination range receives what the source range held before the call,
  and nothing else changes.
\<close>

definition memmove_dv ::
  "(ref \<Rightarrow> dataview) \<Rightarrow> ref \<Rightarrow> nat \<Rightarrow> ref \<Rightarrow> nat \<Rightarrow> nat \<Rightarrow> (ref \<Rightarrow> dataview)" where
  "memmove_dv h src srcPos dest destPos n =
     h(dest := take destPos (h dest) @ take n (drop srcPos (h src)) @ drop (destPos + n) (h dest))"

definition memmove_arr ::
  "(ref \<Rightarrow> jsarray) \<Rightarrow> ref \<Rightarrow> int \<Rightarrow> ref \<Rightarrow> int \<Rightarrow> nat \<Rightarrow> (ref \<Rightarrow> jsarray)" where
  "memmove_arr h src srcPos dest destPos n =
     h(dest := (\<lambda>k. if destPos \<le> k \<and> k < destPos + int n
                     then h src (srcPos + (k - destPos)) else h dest k))"

text \<open>
  Identical memory contents under the two storage strategies: the same page bindings, and at
  every offset of a \<open>DataView\<close> block the array of the same reference holds an element
  that reads as the same byte.
\<close>

definition same_contents :: "(dataview, 'x) cpu_scheme \<Rightarrow> (jsarray, 'y) cpu_scheme \<Rightarrow> bool" where
  "same_contents d a \<longleftrightarrow>
     memReadMap d = memReadMap a \<and> memWriteMap d = memWriteMap a \<and>
     (\<forall>r i. i < length (heap d r) \<longrightarrow>
        js_and (ToInt32v (heap a r (int i))) 0xFF = uint (heap d r ! i))"

text \<open>
  The mapped domain of a page map: the addresses whose page is bound to a block that covers
  the offset.
\<close>

definition mapped :: "ref option list \<Rightarrow> (ref \<Rightarrow> dataview) \<Rightarrow> int \<Rightarrow> bool" where
  "mapped m h x =
     (case lookup m (js_sar x 10) of
        None \<Rightarrow> False
      | Some r \<Rightarrow> js_and x 0x3FF < byteLength (h r))"

text \<open>A sequence of writes, as pairs of address and value; the first one that throws ends it.\<close>

fun writeMems_dv ::
  "bool \<Rightarrow> (int \<Rightarrow> int \<Rightarrow> (dataview, 'x) cpu_scheme \<Rightarrow> (dataview, 'x) cpu_scheme) \<Rightarrow>
   (dataview, 'x) cpu_scheme \<Rightarrow> (int \<times> int) list \<Rightarrow> js_error + (dataview, 'x) cpu_scheme" where
  "writeMems_dv DEBUG page this [] = Inr this"
| "writeMems_dv DEBUG page this ((a, v) # ws) =
     (case snd (writeMem_dv DEBUG page this a v) of
        Inl e \<Rightarrow> Inl e
      | Inr this' \<Rightarrow> writeMems_dv DEBUG page this' ws)"

fun writeMems_arr ::
  "(int \<Rightarrow> int \<Rightarrow> (jsarray, 'x) cpu_scheme \<Rightarrow> (jsarray, 'x) cpu_scheme) \<Rightarrow>
   (jsarray, 'x) cpu_scheme \<Rightarrow> (int \<times> int) list \<Rightarrow> js_error + (jsarray, 'x) cpu_scheme" where
  "writeMems_arr page this [] = Inr this"
| "writeMems_arr page this ((a, v) # ws) =
     (case snd (writeMem_arr page this a v) of
        Inl e \<Rightarrow> Inl e
      | Inr this' \<Rightarrow> writeMems_arr page this' ws)"

section \<open>The JavaScript operators on 16-bit addresses\<close>

lemma ToInt32_id: "- (2 ^ 31) \<le> x \<Longrightarrow> x < 2 ^ 31 \<Longrightarrow> ToInt32 x = x"
  unfolding ToInt32_def by (rule signed_take_bit_int_eq_self) simp_all

lemma js_sar_div: "0 \<le> a \<Longrightarrow> a < 2 ^ 31 \<Longrightarrow> js_sar a n = a div 2 ^ n"
  by (simp add: js_sar_def ToInt32_id drop_bit_eq_div)

lemma js_and_mask10: "0 \<le> a \<Longrightarrow> a < 2 ^ 31 \<Longrightarrow> js_and a 0x3FF = a mod 1024"
proof -
  assume a: "0 \<le> a" "a < 2 ^ 31"
  have "a AND 1023 = take_bit 10 a"
    by (simp add: take_bit_eq_mask mask_eq_exp_minus_1)
  then show ?thesis using a by (simp add: js_and_def ToInt32_id take_bit_eq_mod)
qed

lemma js_and_mask2: "0 \<le> a \<Longrightarrow> a < 2 ^ 31 \<Longrightarrow> js_and a 3 = a mod 4"
proof -
  assume a: "0 \<le> a" "a < 2 ^ 31"
  have "a AND 3 = take_bit 2 a"
    by (simp add: take_bit_eq_mask mask_eq_exp_minus_1)
  then show ?thesis using a by (simp add: js_and_def ToInt32_id take_bit_eq_mod)
qed

lemma js_and_mask8: "0 \<le> a \<Longrightarrow> a < 2 ^ 31 \<Longrightarrow> js_and a 0xFF = a mod 256"
proof -
  assume a: "0 \<le> a" "a < 2 ^ 31"
  have "a AND 255 = take_bit 8 a"
    by (simp add: take_bit_eq_mask mask_eq_exp_minus_1)
  then show ?thesis using a by (simp add: js_and_def ToInt32_id take_bit_eq_mod)
qed

lemma addr16_sar: "0 \<le> a \<Longrightarrow> a \<le> 0xFFFF \<Longrightarrow> js_sar a 10 = a div 1024"
  using js_sar_div [of a 10] by simp

lemma addr16_and: "0 \<le> a \<Longrightarrow> a \<le> 0xFFFF \<Longrightarrow> js_and a 0x3FF = a mod 1024"
  using js_and_mask10 [of a] by simp

lemma u16_shift: "0 \<le> a \<Longrightarrow> a \<le> 0xFFFF \<Longrightarrow> uint (drop_bit 10 (word_of_int a :: 16 word)) = a div 1024"
proof -
  assume a: "0 \<le> a" "a \<le> 0xFFFF"
  have t: "take_bit 16 a = a"
    using a by (intro take_bit_int_eq_self) simp_all
  show ?thesis
    unfolding unsigned_drop_bit_eq by (simp add: drop_bit_eq_div uint_word_of_int_eq t)
qed
lemma u16_mask: "0 \<le> a \<Longrightarrow> a \<le> 0xFFFF \<Longrightarrow> uint ((word_of_int a :: 16 word) AND 0x3FF) = a mod 1024"
proof -
  assume a: "0 \<le> a" "a \<le> 0xFFFF"
  have t: "take_bit 16 a = a"
    using a by (intro take_bit_int_eq_self) simp_all
  have m: "a AND 1023 = take_bit 10 a"
    by (simp add: take_bit_eq_mask mask_eq_exp_minus_1)
  have "uint ((word_of_int a :: 16 word) AND 0x3FF) = uint (word_of_int a :: 16 word) AND 1023"
    by (simp add: uint_and)
  also have "\<dots> = a AND 1023"
    by (simp add: uint_word_of_int_eq t)
  finally show ?thesis by (simp add: m take_bit_eq_mod)
qed

lemma addr17_sar: "0 \<le> a \<Longrightarrow> a \<le> 0xFFFF \<Longrightarrow> js_sar (a + 1) 10 = (a + 1) div 1024"
  using js_sar_div [of "a + 1" 10] by simp

lemma addr17_and: "0 \<le> a \<Longrightarrow> a \<le> 0xFFFF \<Longrightarrow> js_and (a + 1) 0x3FF = (a + 1) mod 1024"
  using js_and_mask10 [of "a + 1"] by simp

lemma translate_debug_check:
  assumes "0 \<le> a" and "a \<le> 0xFFFF"
  shows "debug_check DEBUG m h a =
     (if DEBUG \<and> (int (length m) \<le> a div 1024 \<or>
                   (case lookup m (a div 1024) of
                      None \<Rightarrow> True
                    | Some r \<Rightarrow> byteLength (h r) \<le> a mod 1024))
      then [ConsoleError a (a div 1024) (a mod 1024), Debugger] else [])"
  by (simp add: debug_check_def addr16_sar [OF assms] addr16_and [OF assms] split: option.split)

lemma translate_readMemWord_dv:
  assumes "0 \<le> a" and "a \<le> 0xFFFF"
  shows "snd (readMemWord_dv DEBUG LITTLE_ENDIAN this a) =
     (if a mod 1024 < 1023
      then (case lookup (memReadMap this) (a div 1024) of
              None \<Rightarrow> Inl TypeError
            | Some r \<Rightarrow> getUint16 (heap this r) (a mod 1024) LITTLE_ENDIAN)
      else compose_word
             (case lookup (memReadMap this) (a div 1024) of
                None \<Rightarrow> Inl TypeError
              | Some r \<Rightarrow> getUint8 (heap this r) (a mod 1024))
             (case lookup (memReadMap this) ((a + 1) div 1024) of
                None \<Rightarrow> Inl TypeError
              | Some r \<Rightarrow> getUint8 (heap this r) ((a + 1) mod 1024)))"
  by (simp add: readMemWord_dv_def compose_word_def addr16_sar [OF assms] addr16_and [OF assms]
      addr17_sar [OF assms] addr17_and [OF assms] split: option.split sum.split)

lemma translate_readMemWord_arr:
  assumes "0 \<le> a" and "a \<le> 0xFFFF"
  shows "snd (readMemWord_arr that a) =
     compose_word
       (case lookup (memReadMap that) (a div 1024) of
          None \<Rightarrow> Inl TypeError
        | Some r \<Rightarrow> Inr (js_and (ToInt32v (heap that r (a mod 1024))) 0xFF))
       (case lookup (memReadMap that) ((a + 1) div 1024) of
          None \<Rightarrow> Inl TypeError
        | Some r \<Rightarrow> Inr (js_and (ToInt32v (heap that r ((a + 1) mod 1024))) 0xFF))"
  by (simp add: readMemWord_arr_def compose_word_def Let_def addr16_sar [OF assms]
      addr16_and [OF assms] addr17_sar [OF assms] addr17_and [OF assms] split: option.split)

section \<open>Address translation\<close>

text \<open>
  C8. On the 16-bit domain the page index that the accessors compute, \<^verbatim>\<open>address >> 10\<close>
  with JavaScript's 32-bit operator, is the 16-bit shift of the address, that is
  \<open>a div 1024\<close>, and lies in 0..63; the offset \<^verbatim>\<open>address & 0x3FF\<close> is the 16-bit mask,
  that is \<open>a mod 1024\<close>, and lies in 0..1023. Both are plain arithmetic with no failing
  case: an accessor can fail only in the lookup and the block access that follow. The
  conjuncts after the bounds show this for every accessor: \<open>readMem\<close> and \<open>writeMem\<close> in
  both variants, the \<^verbatim>\<open>DEBUG\<close> block, and \<open>readMemWord\<close> in both variants. \<open>readMemWord\<close>
  translates its address in the same way and, for the high byte, the incremented number
  \<open>a + 1\<close> as well; the index of \<open>a + 1\<close> lies in 0..63 as long as \<open>a + 1\<close> is itself a
  16-bit address, and is 64 for \<open>a = 0xFFFF\<close>, where \<open>a + 1 = 0x10000\<close> has left the domain.
\<close>

theorem translate_total:
  fixes this :: "(dataview, 'x) cpu_scheme" and that :: "(jsarray, 'y) cpu_scheme"
  assumes "0 \<le> a" and "a \<le> 0xFFFF"
  shows "js_sar a 10 = uint (drop_bit 10 (word_of_int a :: 16 word)) \<and>
         js_sar a 10 = a div 1024 \<and> 0 \<le> js_sar a 10 \<and> js_sar a 10 \<le> 63 \<and>
         js_and a 0x3FF = uint ((word_of_int a :: 16 word) AND 0x3FF) \<and>
         js_and a 0x3FF = a mod 1024 \<and> 0 \<le> js_and a 0x3FF \<and> js_and a 0x3FF \<le> 1023 \<and>
         snd (readMem_dv DEBUG this a) =
           (case lookup (memReadMap this) (a div 1024) of
              None \<Rightarrow> Inl TypeError
            | Some r \<Rightarrow> getUint8 (heap this r) (a mod 1024)) \<and>
         snd (writeMem_dv DEBUG page this a v) =
           (case lookup (memWriteMap this) (a div 1024) of
              None \<Rightarrow> Inl TypeError
            | Some r \<Rightarrow>
                (case setInt8 (heap this r) (a mod 1024) v of
                   Inl e \<Rightarrow> Inl e
                 | Inr b \<Rightarrow>
                     Inr (if a \<ge> 0xFFFC then page (js_and a 3) v (this\<lparr>heap := (heap this)(r := b)\<rparr>)
                          else this\<lparr>heap := (heap this)(r := b)\<rparr>))) \<and>
         snd (readMem_arr that a) =
           (case lookup (memReadMap that) (a div 1024) of
              None \<Rightarrow> Inl TypeError
            | Some r \<Rightarrow> Inr (js_and (ToInt32v (heap that r (a mod 1024))) 0xFF)) \<and>
         snd (writeMem_arr page' that a v) =
           (case lookup (memWriteMap that) (a div 1024) of
              None \<Rightarrow> Inl TypeError
            | Some r \<Rightarrow>
                Inr (if a \<ge> 0xFFFC
                     then page' (js_and a 3) v
                       (that\<lparr>heap := (heap that)(r := (heap that r)(a mod 1024 := Some v))\<rparr>)
                     else that\<lparr>heap := (heap that)(r := (heap that r)(a mod 1024 := Some v))\<rparr>)) \<and>
         debug_check DEBUG (memReadMap this) (heap this) a =
           (if DEBUG \<and> (int (length (memReadMap this)) \<le> a div 1024 \<or>
                         (case lookup (memReadMap this) (a div 1024) of
                            None \<Rightarrow> True
                          | Some r \<Rightarrow> byteLength (heap this r) \<le> a mod 1024))
            then [ConsoleError a (a div 1024) (a mod 1024), Debugger] else []) \<and>
         snd (readMemWord_dv DEBUG LITTLE_ENDIAN this a) =
           (if a mod 1024 < 1023
            then (case lookup (memReadMap this) (a div 1024) of
                    None \<Rightarrow> Inl TypeError
                  | Some r \<Rightarrow> getUint16 (heap this r) (a mod 1024) LITTLE_ENDIAN)
            else compose_word
                   (case lookup (memReadMap this) (a div 1024) of
                      None \<Rightarrow> Inl TypeError
                    | Some r \<Rightarrow> getUint8 (heap this r) (a mod 1024))
                   (case lookup (memReadMap this) ((a + 1) div 1024) of
                      None \<Rightarrow> Inl TypeError
                    | Some r \<Rightarrow> getUint8 (heap this r) ((a + 1) mod 1024))) \<and>
         snd (readMemWord_arr that a) =
           compose_word
             (case lookup (memReadMap that) (a div 1024) of
                None \<Rightarrow> Inl TypeError
              | Some r \<Rightarrow> Inr (js_and (ToInt32v (heap that r (a mod 1024))) 0xFF))
             (case lookup (memReadMap that) ((a + 1) div 1024) of
                None \<Rightarrow> Inl TypeError
              | Some r \<Rightarrow> Inr (js_and (ToInt32v (heap that r ((a + 1) mod 1024))) 0xFF)) \<and>
         js_sar (a + 1) 10 = (a + 1) div 1024 \<and> js_and (a + 1) 0x3FF = (a + 1) mod 1024 \<and>
         0 \<le> js_and (a + 1) 0x3FF \<and> js_and (a + 1) 0x3FF \<le> 1023 \<and>
         (a \<le> 0xFFFE \<longrightarrow> 0 \<le> js_sar (a + 1) 10 \<and> js_sar (a + 1) 10 \<le> 63) \<and>
         (a = 0xFFFF \<longrightarrow> js_sar (a + 1) 10 = 64)"
proof -
  have s: "js_sar a 10 = a div 1024" and m: "js_and a 0x3FF = a mod 1024"
    using assms by (rule addr16_sar, rule addr16_and)
  have s1: "js_sar (a + 1) 10 = (a + 1) div 1024"
    and m1: "js_and (a + 1) 0x3FF = (a + 1) mod 1024"
    using assms by (rule addr17_sar, rule addr17_and)
  have "js_sar a 10 = uint (drop_bit 10 (word_of_int a :: 16 word))"
    "js_and a 0x3FF = uint ((word_of_int a :: 16 word) AND 0x3FF)"
    using assms by (simp_all add: s m u16_shift u16_mask)
  have "0 \<le> js_sar a 10" "js_sar a 10 \<le> 63" "0 \<le> js_and a 0x3FF"
    "js_and a 0x3FF \<le> 1023"
    using assms by (simp_all add: s m)
  have "snd (readMem_dv DEBUG this a) =
           (case lookup (memReadMap this) (a div 1024) of
              None \<Rightarrow> Inl TypeError
            | Some r \<Rightarrow> getUint8 (heap this r) (a mod 1024))"
    by (simp add: readMem_dv_def s m split: option.split)
  have "snd (writeMem_dv DEBUG page this a v) =
           (case lookup (memWriteMap this) (a div 1024) of
              None \<Rightarrow> Inl TypeError
            | Some r \<Rightarrow>
                (case setInt8 (heap this r) (a mod 1024) v of
                   Inl e \<Rightarrow> Inl e
                 | Inr b \<Rightarrow>
                     Inr (if a \<ge> 0xFFFC then page (js_and a 3) v (this\<lparr>heap := (heap this)(r := b)\<rparr>)
                          else this\<lparr>heap := (heap this)(r := b)\<rparr>)))"
    by (simp add: writeMem_dv_def s m Let_def split: option.split sum.split)
  have "snd (readMem_arr that a) =
           (case lookup (memReadMap that) (a div 1024) of
              None \<Rightarrow> Inl TypeError
            | Some r \<Rightarrow> Inr (js_and (ToInt32v (heap that r (a mod 1024))) 0xFF))"
    by (simp add: readMem_arr_def s m split: option.split)
  have "snd (writeMem_arr page' that a v) =
           (case lookup (memWriteMap that) (a div 1024) of
              None \<Rightarrow> Inl TypeError
            | Some r \<Rightarrow>
                Inr (if a \<ge> 0xFFFC
                     then page' (js_and a 3) v
                       (that\<lparr>heap := (heap that)(r := (heap that r)(a mod 1024 := Some v))\<rparr>)
                     else that\<lparr>heap := (heap that)(r := (heap that r)(a mod 1024 := Some v))\<rparr>))"
    by (simp add: writeMem_arr_def s m Let_def split: option.split)
  note w = s m s1 m1
    translate_debug_check [OF assms, of DEBUG "memReadMap this" "heap this"]
    translate_readMemWord_dv [OF assms, of DEBUG LITTLE_ENDIAN this]
    translate_readMemWord_arr [OF assms, of that]
  have "0 \<le> js_and (a + 1) 0x3FF" "js_and (a + 1) 0x3FF \<le> 1023"
    by (simp_all add: m1)
  have "a \<le> 0xFFFE \<longrightarrow> 0 \<le> js_sar (a + 1) 10 \<and> js_sar (a + 1) 10 \<le> 63"
    using assms by (intro impI conjI) (simp_all add: s1)
  have "a = 0xFFFF \<longrightarrow> js_sar (a + 1) 10 = 64"
    by (simp add: js_sar_def ToInt32_def)
  show ?thesis by (intro conjI; fact)
qed

theorem translate_total_witness:
  "js_sar 0xFFFF 10 = 63 \<and> js_and 0xFFFF 0x3FF = 1023 \<and> js_sar (0xFFFF + 1) 10 = 64 \<and>
   snd (readMem_dv True full_dv 0xFFFF) = Inr 64 \<and>
   snd (readMem_arr full_arr 0xFFFF) = Inr 64 \<and>
   snd (readMemWord_dv True True full_dv 0xFFFF) = Inl TypeError \<and>
   snd (readMemWord_arr full_arr 0xFFFF) = Inl TypeError \<and>
   js_sar (0x03FF + 1) 10 = 1 \<and>
   snd (readMemWord_dv True True full_dv 0x03FF) = Inr 0x0201 \<and>
   snd (readMemWord_arr full_arr 0x03FF) = Inr 0x0201"
proof -
  note t1 = translate_total [of "0xFFFF" True full_dv page_nop 0 full_arr page_nop True]
  note t2 = translate_total [of "0x03FF" True full_dv page_nop 0 full_arr page_nop True]
  have l: "lookup (map Some [0..<64]) 63 = Some 63" "lookup (map Some [0..<64]) 64 = None"
    "lookup (map Some [0..<64]) 0 = Some 0" "lookup (map Some [0..<64]) 1 = Some 1"
    by (simp_all add: lookup_def)
  have b: "js_and (ToInt32v (Some 1)) 0xFF = 1" "js_and (ToInt32v (Some 2)) 0xFF = 2"
    "js_and (ToInt32v (Some 64)) 0xFF = 64" "js_or 1 (js_shl 2 8) = 0x0201"
    by (simp_all add: js_and_def js_or_def js_shl_def ToInt32_def ToInt32v_def)
  show ?thesis
    using t1 t2
    by (simp add: full_dv_def full_arr_def l b getUint8_def byteLength_def compose_word_def)
qed

section \<open>Bytes and words\<close>

lemma uint8_bounds: "0 \<le> uint (w :: 8 word) \<and> uint w \<le> 255"
  using uint_lt2p [of w] by simp

lemma js_byte_bounds: "0 \<le> js_and x 0xFF \<and> js_and x 0xFF \<le> 255"
proof -
  have "ToInt32 x AND 255 = take_bit 8 (ToInt32 x)"
    by (simp add: take_bit_eq_mask mask_eq_exp_minus_1)
  moreover have "ToInt32 255 = 255" by (simp add: ToInt32_def)
  moreover have "take_bit 8 (ToInt32 x) < 2 ^ 8" by (rule take_bit_int_less_exp)
  ultimately show ?thesis by (simp add: js_and_def)
qed

lemma js_or_shl8:
  assumes "0 \<le> lo" "lo \<le> 255" "0 \<le> hi" "hi \<le> 255"
  shows "js_or lo (js_shl hi 8) = lo + 256 * hi"
proof -
  have h: "ToInt32 hi = hi" using assms by (intro ToInt32_id) simp_all
  have l: "ToInt32 lo = lo" using assms by (intro ToInt32_id) simp_all
  have p: "push_bit 8 hi = 256 * hi" by (simp add: push_bit_eq_mult)
  have s: "ToInt32 (256 * hi) = 256 * hi" using assms by (intro ToInt32_id) simp_all
  have tl: "take_bit 8 lo = lo" using assms by (intro take_bit_int_eq_self) simp_all
  have "lo OR push_bit 8 hi = take_bit 8 lo OR push_bit 8 hi" by (simp add: tl)
  also have "\<dots> = take_bit 8 lo + push_bit 8 hi"
    using concat_bit_eq [of 8 lo hi] by (simp add: concat_bit_def)
  finally show ?thesis by (simp add: js_or_def js_shl_def h l p s tl)
qed

lemma readMemWord_dv_boundary:
  "js_and a 0x3FF = 0x3FF \<Longrightarrow>
   snd (readMemWord_dv D LE this a) =
     compose_word (snd (readMem_dv D this a)) (snd (readMem_dv D this (a + 1)))"
  by (simp add: readMemWord_dv_def readMem_dv_def compose_word_def split: option.split sum.split)

lemma readMemWord_arr_two_reads:
  "snd (readMemWord_arr this a) =
     compose_word (snd (readMem_arr this a)) (snd (readMem_arr this (a + 1)))"
  by (simp add: readMemWord_arr_def readMem_arr_def compose_word_def Let_def split: option.split)

lemma next_in_page:
  assumes "0 \<le> a" "a \<le> 0xFFFF" "a mod 1024 < 1023"
  shows "js_sar (a + 1) 10 = a div 1024" and "js_and (a + 1) 0x3FF = a mod 1024 + 1"
proof -
  have e: "a + 1 = 1024 * (a div 1024) + (a mod 1024 + 1)" by simp
  have r: "0 \<le> a mod 1024 + 1" "a mod 1024 + 1 < 1024" using assms by simp_all
  have "(a + 1) div 1024 = a div 1024" by (rule int_div_pos_eq [OF e r])
  moreover have "(a + 1) mod 1024 = a mod 1024 + 1" by (rule int_mod_pos_eq [OF e r])
  moreover have "js_sar (a + 1) 10 = (a + 1) div 1024" using assms js_sar_div [of "a + 1" 10] by simp
  moreover have "js_and (a + 1) 0x3FF = (a + 1) mod 1024" using assms js_and_mask10 [of "a + 1"] by simp
  ultimately show "js_sar (a + 1) 10 = a div 1024" and "js_and (a + 1) 0x3FF = a mod 1024 + 1"
    by simp_all
qed

lemma getUint16_le_two_reads:
  assumes "0 \<le> i"
  shows "getUint16 dv i True = compose_word (getUint8 dv i) (getUint8 dv (i + 1))"
proof (cases "i + 2 \<le> byteLength dv")
  case True
  then show ?thesis using assms uint8_bounds [of "dv ! nat i"] uint8_bounds [of "dv ! nat (i + 1)"]
    by (simp add: getUint16_def getUint8_def compose_word_def Let_def js_or_shl8)
next
  case False
  then show ?thesis using assms
    by (simp add: getUint16_def getUint8_def compose_word_def)
qed

lemma readMemWord_dv_two_reads:
  assumes "0 \<le> a" "a \<le> 0xFFFF"
  shows "snd (readMemWord_dv D True this a) =
     compose_word (snd (readMem_dv D this a)) (snd (readMem_dv D this (a + 1)))"
proof (cases "a mod 1024 < 1023")
  case True
  have s: "js_sar a 10 = a div 1024" and m: "js_and a 0x3FF = a mod 1024"
    using assms by (rule addr16_sar, rule addr16_and)
  have c: "compose_word (Inl TypeError) x = Inl TypeError" for x
    by (simp add: compose_word_def)
  show ?thesis using True
    by (simp add: readMemWord_dv_def readMem_dv_def s m next_in_page [OF assms True]
        getUint16_le_two_reads c split: option.split)
next
  case False
  then have "js_and a 0x3FF = 0x3FF" using addr16_and [OF assms] by simp
  then show ?thesis by (rule readMemWord_dv_boundary)
qed

lemma next_page:
  assumes "0 \<le> a" "a \<le> 0xFFFF" "js_and a 0x3FF = 0x3FF"
  shows "js_sar (a + 1) 10 = js_sar a 10 + 1" and "js_and (a + 1) 0x3FF = 0"
proof -
  have m: "a mod 1024 = 1023" using assms addr16_and [of a] by simp
  have e: "a + 1 = 1024 * (a div 1024 + 1) + 0"
    using m mult_div_mod_eq [of 1024 a] by simp
  have "(a + 1) div 1024 = a div 1024 + 1" by (rule int_div_pos_eq [OF e]) simp_all
  moreover have "(a + 1) mod 1024 = 0" by (rule int_mod_pos_eq [OF e]) simp_all
  moreover have "js_sar (a + 1) 10 = (a + 1) div 1024" using assms js_sar_div [of "a + 1" 10] by simp
  moreover have "js_and (a + 1) 0x3FF = (a + 1) mod 1024" using assms js_and_mask10 [of "a + 1"] by simp
  ultimately show "js_sar (a + 1) 10 = js_sar a 10 + 1" and "js_and (a + 1) 0x3FF = 0"
    using assms by (simp_all add: addr16_sar)
qed

section \<open>Reading a word\<close>

lemma readMemWord_dv_boundary_bytes:
  assumes "js_and a 0x3FF = 0x3FF" and "js_and (a + 1) 0x3FF = 0"
    and "lookup (memReadMap this) (js_sar a 10) = Some r"
    and "lookup (memReadMap this) (js_sar (a + 1) 10) = Some r'"
    and "1024 \<le> length (heap this r)" and "1 \<le> length (heap this r')"
  shows "snd (readMemWord_dv D LE this a) =
           Inr (uint (heap this r ! 1023) + 256 * uint (heap this r' ! 0))"
  using assms uint8_bounds [of "heap this r ! 1023"] uint8_bounds [of "heap this r' ! 0"]
  by (simp add: readMemWord_dv_def getUint8_def byteLength_def js_or_shl8)

lemma readMemWord_dv_inpage_bytes:
  assumes "0 \<le> js_and a 0x3FF" and "js_and a 0x3FF < 0x3FF"
    and "lookup (memReadMap this) (js_sar a 10) = Some r"
    and "js_and a 0x3FF + 2 \<le> byteLength (heap this r)"
  shows "snd (readMemWord_dv D True this a) =
           Inr (uint (heap this r ! nat (js_and a 0x3FF)) +
                256 * uint (heap this r ! nat (js_and a 0x3FF + 1)))"
  using assms by (simp add: readMemWord_dv_def getUint16_def Let_def)

lemma readMemWord_arr_bytes:
  assumes "lookup (memReadMap this) (js_sar a 10) = Some r"
    and "lookup (memReadMap this) (js_sar (a + 1) 10) = Some r'"
  shows "snd (readMemWord_arr this a) =
           Inr (js_and (ToInt32v (heap this r (js_and a 0x3FF))) 0xFF +
                256 * js_and (ToInt32v (heap this r' (js_and (a + 1) 0x3FF))) 0xFF)"
  using assms js_byte_bounds [of "ToInt32v (heap this r (js_and a 0x3FF))"]
    js_byte_bounds [of "ToInt32v (heap this r' (js_and (a + 1) 0x3FF))"]
  by (simp add: readMemWord_arr_def Let_def js_or_shl8)

text \<open>
  C1. At the last byte of a page (\<open>a & 0x3FF = 0x3FF\<close>) \<open>readMemWord\<close> yields what
  \<open>readMem a\<close> and \<open>readMem (a + 1)\<close> yield, composed as \<open>low | (high << 8)\<close>, errors
  included, in both variants and whatever \<open>LITTLE_ENDIAN\<close> is. On the 16-bit domain
  \<open>a + 1\<close> lies on the next page at offset 0, so with the two pages bound to blocks \<open>r\<close> and
  \<open>r'\<close>, equal or not, the low byte is byte 1023 of \<open>r\<close> and the high byte is byte 0 of
  \<open>r'\<close>. Below the last byte the word is made of the bytes at the offset and the offset
  plus one of the single block, low byte first: by \<open>getUint16\<close> in the \<open>DataView\<close> variant
  when \<open>LITTLE_ENDIAN\<close> holds, by two element reads in the array variant.
\<close>

theorem readMemWord_page_boundary:
  fixes this :: "(dataview, 'x) cpu_scheme" and that :: "(jsarray, 'y) cpu_scheme"
  shows
  "(js_and a 0x3FF = 0x3FF \<longrightarrow>
      snd (readMemWord_dv DEBUG LITTLE_ENDIAN this a) =
        compose_word (snd (readMem_dv DEBUG this a)) (snd (readMem_dv DEBUG this (a + 1))) \<and>
      snd (readMemWord_arr that a) =
        compose_word (snd (readMem_arr that a)) (snd (readMem_arr that (a + 1)))) \<and>
   (0 \<le> a \<and> a \<le> 0xFFFF \<and> js_and a 0x3FF = 0x3FF \<longrightarrow>
      js_sar (a + 1) 10 = js_sar a 10 + 1 \<and> js_and (a + 1) 0x3FF = 0) \<and>
   (0 \<le> a \<and> a \<le> 0xFFFF \<and> js_and a 0x3FF = 0x3FF \<and>
    lookup (memReadMap this) (js_sar a 10) = Some r \<and>
    lookup (memReadMap this) (js_sar (a + 1) 10) = Some r' \<and>
    1024 \<le> length (heap this r) \<and> 1 \<le> length (heap this r') \<longrightarrow>
      snd (readMemWord_dv DEBUG LITTLE_ENDIAN this a) =
        Inr (uint (heap this r ! 1023) + 256 * uint (heap this r' ! 0))) \<and>
   (0 \<le> a \<and> a \<le> 0xFFFF \<and> js_and a 0x3FF = 0x3FF \<and>
    lookup (memReadMap that) (js_sar a 10) = Some q \<and>
    lookup (memReadMap that) (js_sar (a + 1) 10) = Some q' \<longrightarrow>
      snd (readMemWord_arr that a) =
        Inr (js_and (ToInt32v (heap that q 1023)) 0xFF +
             256 * js_and (ToInt32v (heap that q' 0)) 0xFF)) \<and>
   (0 \<le> a \<and> a \<le> 0xFFFF \<and> js_and a 0x3FF < 0x3FF \<and> LITTLE_ENDIAN \<and>
    lookup (memReadMap this) (js_sar a 10) = Some r \<and>
    js_and a 0x3FF + 2 \<le> byteLength (heap this r) \<longrightarrow>
      snd (readMemWord_dv DEBUG LITTLE_ENDIAN this a) =
        Inr (uint (heap this r ! nat (js_and a 0x3FF)) +
             256 * uint (heap this r ! nat (js_and a 0x3FF + 1)))) \<and>
   (0 \<le> a \<and> a \<le> 0xFFFF \<and> js_and a 0x3FF < 0x3FF \<and>
    lookup (memReadMap that) (js_sar a 10) = Some q \<longrightarrow>
      snd (readMemWord_arr that a) =
        Inr (js_and (ToInt32v (heap that q (js_and a 0x3FF))) 0xFF +
             256 * js_and (ToInt32v (heap that q (js_and a 0x3FF + 1))) 0xFF))"
proof (intro conjI impI; (elim conjE)?)
  assume "js_and a 0x3FF = 0x3FF"
  then show "snd (readMemWord_dv DEBUG LITTLE_ENDIAN this a) =
        compose_word (snd (readMem_dv DEBUG this a)) (snd (readMem_dv DEBUG this (a + 1)))"
    by (rule readMemWord_dv_boundary)
next
  show "snd (readMemWord_arr that a) =
        compose_word (snd (readMem_arr that a)) (snd (readMem_arr that (a + 1)))"
    by (rule readMemWord_arr_two_reads)
next
  assume "0 \<le> a" "a \<le> 0xFFFF" "js_and a 0x3FF = 0x3FF"
  then show "js_sar (a + 1) 10 = js_sar a 10 + 1" by (rule next_page)
next
  assume "0 \<le> a" "a \<le> 0xFFFF" "js_and a 0x3FF = 0x3FF"
  then show "js_and (a + 1) 0x3FF = 0" by (rule next_page)
next
  assume a: "0 \<le> a" "a \<le> 0xFFFF" "js_and a 0x3FF = 0x3FF"
    and "lookup (memReadMap this) (js_sar a 10) = Some r"
    and "lookup (memReadMap this) (js_sar (a + 1) 10) = Some r'"
    and "1024 \<le> length (heap this r)" and "1 \<le> length (heap this r')"
  then show "snd (readMemWord_dv DEBUG LITTLE_ENDIAN this a) =
        Inr (uint (heap this r ! 1023) + 256 * uint (heap this r' ! 0))"
    using next_page(2) [OF a] by (intro readMemWord_dv_boundary_bytes) simp_all
next
  assume a: "0 \<le> a" "a \<le> 0xFFFF" "js_and a 0x3FF = 0x3FF"
    and l: "lookup (memReadMap that) (js_sar a 10) = Some q"
      "lookup (memReadMap that) (js_sar (a + 1) 10) = Some q'"
  show "snd (readMemWord_arr that a) =
        Inr (js_and (ToInt32v (heap that q 1023)) 0xFF +
             256 * js_and (ToInt32v (heap that q' 0)) 0xFF)"
    using readMemWord_arr_bytes [OF l] a(3) next_page(2) [OF a] by simp
next
  assume a: "0 \<le> a" "a \<le> 0xFFFF" "js_and a 0x3FF < 0x3FF" and le: "LITTLE_ENDIAN"
    and l: "lookup (memReadMap this) (js_sar a 10) = Some r"
    and b: "js_and a 0x3FF + 2 \<le> byteLength (heap this r)"
  have "0 \<le> js_and a 0x3FF" using a by (simp add: addr16_and)
  from readMemWord_dv_inpage_bytes [OF this a(3) l b]
  show "snd (readMemWord_dv DEBUG LITTLE_ENDIAN this a) =
        Inr (uint (heap this r ! nat (js_and a 0x3FF)) +
             256 * uint (heap this r ! nat (js_and a 0x3FF + 1)))"
    using le by simp
next
  assume a: "0 \<le> a" "a \<le> 0xFFFF" "js_and a 0x3FF < 0x3FF"
    and l: "lookup (memReadMap that) (js_sar a 10) = Some q"
  have m: "a mod 1024 < 1023" using a by (simp add: addr16_and)
  have n: "js_sar (a + 1) 10 = js_sar a 10" "js_and (a + 1) 0x3FF = js_and a 0x3FF + 1"
    using next_in_page [OF a(1,2) m] a by (simp_all add: addr16_sar addr16_and)
  show "snd (readMemWord_arr that a) =
        Inr (js_and (ToInt32v (heap that q (js_and a 0x3FF))) 0xFF +
             256 * js_and (ToInt32v (heap that q (js_and a 0x3FF + 1))) 0xFF)"
    using readMemWord_arr_bytes [of that a q q] l n by simp
qed

theorem readMemWord_page_boundary_witness:
  "snd (readMemWord_dv True True full_dv 0x3FF) = Inr 0x0201 \<and>
   snd (readMemWord_arr full_arr 0x3FF) = Inr 0x0201 \<and>
   snd (readMemWord_dv True True full_dv 0x0402) = Inr 0x0202 \<and>
   snd (readMemWord_arr full_arr 0x0402) = Inr 0x0202"
proof -
  have e: "js_and 0x3FF 0x3FF = 0x3FF" "js_sar 0x3FF 10 = 0" "js_sar 0x400 10 = 1" "js_and 0x400 0x3FF = 0" "js_sar 0x403 10 = 1" "js_and 0x403 0x3FF = 3"
    "js_and 0x402 0x3FF = 2" "js_sar 0x402 10 = 1"
    by (simp_all add: js_and_def js_sar_def ToInt32_def)
  have l: "lookup (memReadMap full_dv) 0 = Some 0" "lookup (memReadMap full_dv) 1 = Some 1"
    "lookup (memReadMap full_arr) 0 = Some 0" "lookup (memReadMap full_arr) 1 = Some 1"
    by (simp_all add: full_dv_def full_arr_def lookup_def)
  have h: "length (heap full_dv r) = 1024" "heap full_dv r ! 1023 = word_of_nat (r + 1)"
    "heap full_dv r ! 0 = word_of_nat (r + 1)" "heap full_dv r ! 2 = word_of_nat (r + 1)"
    "heap full_dv r ! 3 = word_of_nat (r + 1)" for r
    by (simp_all add: full_dv_def)
  have g: "heap full_arr r 1023 = Some (int r + 1)" "heap full_arr r 0 = Some (int r + 1)"
    "heap full_arr r 2 = Some (int r + 1)" "heap full_arr r 3 = Some (int r + 1)" for r
    by (simp_all add: full_arr_def)
  have b: "js_and (ToInt32v (Some 1)) 0xFF = 1" "js_and (ToInt32v (Some 2)) 0xFF = 2"
    by (simp_all add: js_and_def ToInt32_def ToInt32v_def)
  note t1 = readMemWord_page_boundary [of "0x3FF" True True full_dv full_arr 0 1 0 1]
  note t2 = readMemWord_page_boundary [of "0x402" True True full_dv full_arr 1 1 1 1]
  have "snd (readMemWord_dv True True full_dv 0x3FF) = Inr 0x0201"
    using t1 [THEN conjunct2, THEN conjunct2, THEN conjunct1] by (simp add: e l h)
  moreover have "snd (readMemWord_arr full_arr 0x3FF) = Inr 0x0201"
    using t1 [THEN conjunct2, THEN conjunct2, THEN conjunct2, THEN conjunct1] by (simp add: e l g b)
  moreover have "snd (readMemWord_dv True True full_dv 0x0402) = Inr 0x0202"
    using t2 [THEN conjunct2, THEN conjunct2, THEN conjunct2, THEN conjunct2, THEN conjunct1]
    by (simp add: e l h byteLength_def)
  moreover have "snd (readMemWord_arr full_arr 0x0402) = Inr 0x0202"
    using t2 [THEN conjunct2, THEN conjunct2, THEN conjunct2, THEN conjunct2, THEN conjunct2]
    by (simp add: e l g b)
  ultimately show ?thesis by simp
qed

section \<open>Writing a byte and the paging trap\<close>

lemma lookup_Some_range: "lookup m i = Some r \<Longrightarrow> 0 \<le> i \<and> i < int (length m)"
  by (simp add: lookup_def split: if_splits)

lemma debug_check_no_PageCall: "PageCall j w \<notin> set (debug_check D m h a)"
  by (simp add: debug_check_def)

lemma debug_check_in_range:
  "lookup m (js_sar a 10) = Some r \<Longrightarrow> js_and a 0x3FF < byteLength (h r) \<Longrightarrow>
   debug_check D m h a = []"
  by (auto simp add: debug_check_def dest: lookup_Some_range)

lemma debug_check_fires:
  "lookup m (js_sar a 10) = None \<or>
   (\<exists>r. lookup m (js_sar a 10) = Some r \<and> byteLength (h r) \<le> js_and a 0x3FF) \<Longrightarrow>
   debug_check True m h a = [ConsoleError a (js_sar a 10) (js_and a 0x3FF), Debugger]"
  by (auto simp add: debug_check_def)

lemma top_addresses:
  assumes "k \<in> {0, 1, 2, 3}"
  shows "js_sar (0xFFFC + k) 10 = 63" and "js_and (0xFFFC + k) 0x3FF = 0x3FC + k"
    and "js_and (0xFFFC + k) 3 = k"
  using assms by (auto simp add: js_sar_def js_and_def ToInt32_def)

lemma js_and_nonneg: "0 \<le> js_and a 0x3FF"
proof -
  have "ToInt32 1023 = 1023" by (simp add: ToInt32_def)
  then show ?thesis by (simp add: js_and_def)
qed

lemma writeMem_dv_stored:
  assumes "lookup (memWriteMap this) (js_sar a 10) = Some r"
    and "js_and a 0x3FF < byteLength (heap this r)"
  shows "writeMem_dv D page this a v =
     (let this' = this\<lparr>heap := (heap this)(r := (heap this r)[nat (js_and a 0x3FF) := word_of_int v])\<rparr>
      in if 0xFFFC \<le> a then ([PageCall (js_and a 3) v], Inr (page (js_and a 3) v this'))
         else ([], Inr this'))"
  using assms js_and_nonneg [of a]
  by (simp add: writeMem_dv_def debug_check_in_range setInt8_def Let_def)

lemma writeMem_dv_thrown:
  assumes "lookup (memWriteMap this) (js_sar a 10) = None \<or>
    (\<exists>r. lookup (memWriteMap this) (js_sar a 10) = Some r \<and> byteLength (heap this r) \<le> js_and a 0x3FF)"
  shows "writeMem_dv D page this a v =
     (debug_check D (memWriteMap this) (heap this) a,
      Inl (if lookup (memWriteMap this) (js_sar a 10) = None then TypeError else RangeError))"
  using assms by (auto simp add: writeMem_dv_def setInt8_def Let_def)

lemma writeMem_arr_stored:
  assumes "lookup (memWriteMap this) (js_sar a 10) = Some r"
  shows "writeMem_arr page this a v =
     (let this' = this\<lparr>heap := (heap this)(r := (heap this r)(js_and a 0x3FF := Some v))\<rparr>
      in if 0xFFFC \<le> a then ([PageCall (js_and a 3) v], Inr (page (js_and a 3) v this'))
         else ([], Inr this'))"
  using assms by (simp add: writeMem_arr_def Let_def)

lemma writeMem_arr_thrown:
  assumes "lookup (memWriteMap this) (js_sar a 10) = None"
  shows "writeMem_arr page this a v = ([], Inl TypeError)"
  using assms by (simp add: writeMem_arr_def)

text \<open>
  C2, as stated, fails: with page 63 unbound in the write map the store throws a
  \<^verbatim>\<open>TypeError\<close>, and with a four-byte \<open>DataView\<close> bound there it throws a \<^verbatim>\<open>RangeError\<close>;
  in both cases \<open>writeMem\<close> is left before the test \<^verbatim>\<open>address >= 0xFFFC\<close> and \<open>page\<close> is not
  called, in a \<^verbatim>\<open>DEBUG\<close> build or not.
\<close>

theorem writeMem_trap_unconditional_counterexample:
  "writeMem_dv False page_nop zero_page0_dv 0xFFFC 5 = ([], Inl TypeError) \<and>
   writeMem_dv True page_nop zero_page0_dv 0xFFFC 5 =
     ([ConsoleError 0xFFFC 63 0x3FC, Debugger], Inl TypeError) \<and>
   writeMem_dv False page_nop short_dv 0xFFFC 5 = ([], Inl RangeError) \<and>
   writeMem_arr page_nop zero_page0_arr 0xFFFC 5 = ([], Inl TypeError)"
  by (simp add: writeMem_dv_def writeMem_arr_def zero_page0_dv_def zero_page0_arr_def short_dv_def
      debug_check_def lookup_def setInt8_def byteLength_def js_sar_def js_and_def ToInt32_def)

text \<open>
  C2, amended. The trap follows a store that completed: for \<open>a \<ge> 0xFFFC\<close>, with the page
  bound in the write map (and the offset inside the block, for a \<open>DataView\<close>), \<open>page\<close> is
  called once, with \<open>(a & 3, v)\<close>, on the object that holds the stored byte. When the page is
  unbound, or the offset lies outside the \<open>DataView\<close>, the store throws and \<open>page\<close> is not
  called.
\<close>

theorem writeMem_trap_after_store:
  fixes this :: "(dataview, 'x) cpu_scheme" and that :: "(jsarray, 'y) cpu_scheme"
  shows
  "(0xFFFC \<le> a \<and> lookup (memWriteMap this) (js_sar a 10) = Some r \<and>
    js_and a 0x3FF < byteLength (heap this r) \<longrightarrow>
      writeMem_dv DEBUG page this a v =
        ([PageCall (js_and a 3) v],
         Inr (page (js_and a 3) v
           (this\<lparr>heap := (heap this)(r := (heap this r)[nat (js_and a 0x3FF) := word_of_int v])\<rparr>)))) \<and>
   (lookup (memWriteMap this) (js_sar a 10) = None \<or>
    (\<exists>r. lookup (memWriteMap this) (js_sar a 10) = Some r \<and>
         byteLength (heap this r) \<le> js_and a 0x3FF) \<longrightarrow>
      snd (writeMem_dv DEBUG page this a v) =
        Inl (if lookup (memWriteMap this) (js_sar a 10) = None then TypeError else RangeError) \<and>
      (\<forall>j w. PageCall j w \<notin> set (fst (writeMem_dv DEBUG page this a v)))) \<and>
   (0xFFFC \<le> a \<and> lookup (memWriteMap that) (js_sar a 10) = Some q \<longrightarrow>
      writeMem_arr page' that a v =
        ([PageCall (js_and a 3) v],
         Inr (page' (js_and a 3) v
           (that\<lparr>heap := (heap that)(q := (heap that q)(js_and a 0x3FF := Some v))\<rparr>)))) \<and>
   (lookup (memWriteMap that) (js_sar a 10) = None \<longrightarrow>
      writeMem_arr page' that a v = ([], Inl TypeError))"
proof (intro conjI impI allI; (elim conjE)?)
  assume "0xFFFC \<le> a" "lookup (memWriteMap this) (js_sar a 10) = Some r"
    "js_and a 0x3FF < byteLength (heap this r)"
  then show "writeMem_dv DEBUG page this a v =
        ([PageCall (js_and a 3) v],
         Inr (page (js_and a 3) v
           (this\<lparr>heap := (heap this)(r := (heap this r)[nat (js_and a 0x3FF) := word_of_int v])\<rparr>)))"
    by (simp add: writeMem_dv_stored)
next
  assume f: "lookup (memWriteMap this) (js_sar a 10) = None \<or>
    (\<exists>r. lookup (memWriteMap this) (js_sar a 10) = Some r \<and>
         byteLength (heap this r) \<le> js_and a 0x3FF)"
  show "snd (writeMem_dv DEBUG page this a v) =
        Inl (if lookup (memWriteMap this) (js_sar a 10) = None then TypeError else RangeError)"
    by (simp add: writeMem_dv_thrown [OF f])
  fix j w
  show "PageCall j w \<notin> set (fst (writeMem_dv DEBUG page this a v))"
    by (simp add: writeMem_dv_thrown [OF f] debug_check_no_PageCall)
next
  assume "0xFFFC \<le> a" "lookup (memWriteMap that) (js_sar a 10) = Some q"
  then show "writeMem_arr page' that a v =
        ([PageCall (js_and a 3) v],
         Inr (page' (js_and a 3) v
           (that\<lparr>heap := (heap that)(q := (heap that q)(js_and a 0x3FF := Some v))\<rparr>)))"
    by (simp add: writeMem_arr_stored)
next
  assume "lookup (memWriteMap that) (js_sar a 10) = None"
  then show "writeMem_arr page' that a v = ([], Inl TypeError)"
    by (rule writeMem_arr_thrown)
qed

theorem writeMem_trap_after_store_witness:
  "fst (writeMem_dv True page_rebind0 full_dv 0xFFFD 7) = [PageCall 1 7] \<and>
   snd (writeMem_dv True page_nop short_dv 0xFFFD 7) = Inl RangeError \<and>
   PageCall 1 7 \<notin> set (fst (writeMem_dv True page_nop short_dv 0xFFFD 7)) \<and>
   fst (writeMem_arr page_rebind0 full_arr 0xFFFD 7) = [PageCall 1 7] \<and>
   writeMem_arr page_nop zero_page0_arr 0xFFFD 7 = ([], Inl TypeError)"
proof -
  have e: "js_sar 0xFFFD 10 = 63" "js_and 0xFFFD 0x3FF = 0x3FD" "js_and 0xFFFD 3 = 1"
    by (simp_all add: js_sar_def js_and_def ToInt32_def)
  have l: "lookup (memWriteMap full_dv) 63 = Some 63" "lookup (memWriteMap short_dv) 63 = Some 63"
    "lookup (memWriteMap full_arr) 63 = Some 63" "lookup (memWriteMap zero_page0_arr) 63 = None"
    by (simp_all add: full_dv_def short_dv_def full_arr_def zero_page0_arr_def lookup_def)
  have b: "byteLength (heap full_dv 63) = 1024" "byteLength (heap short_dv 63) = 4"
    by (simp_all add: full_dv_def short_dv_def byteLength_def)
  note t1 = writeMem_trap_after_store [of "0xFFFD" full_dv 63 True page_rebind0 7 full_arr 63 page_rebind0]
  note t2 = writeMem_trap_after_store [of "0xFFFD" short_dv 63 True page_nop 7 zero_page0_arr 63 page_nop]
  have "fst (writeMem_dv True page_rebind0 full_dv 0xFFFD 7) = [PageCall 1 7]"
    using t1 [THEN conjunct1] by (simp add: e l b)
  moreover have "snd (writeMem_dv True page_nop short_dv 0xFFFD 7) = Inl RangeError \<and>
      PageCall 1 7 \<notin> set (fst (writeMem_dv True page_nop short_dv 0xFFFD 7))"
    using t2 [THEN conjunct2, THEN conjunct1] by (simp add: e l b)
  moreover have "fst (writeMem_arr page_rebind0 full_arr 0xFFFD 7) = [PageCall 1 7]"
    using t1 [THEN conjunct2, THEN conjunct2, THEN conjunct1] by (simp add: e l)
  moreover have "writeMem_arr page_nop zero_page0_arr 0xFFFD 7 = ([], Inl TypeError)"
    using t2 [THEN conjunct2, THEN conjunct2, THEN conjunct2] by (simp add: e l)
  ultimately show ?thesis by simp
qed

lemma u8_roundtrip: "0 \<le> v \<Longrightarrow> v \<le> 255 \<Longrightarrow> uint (word_of_int v :: 8 word) = v"
  by (simp add: uint_word_of_int_eq take_bit_int_eq_self)

text \<open>
  C3. For \<open>k\<close> in 0..3 and a byte \<open>v\<close>, with a block bound as page 63 of the write map
  (one that covers the offset, for a \<open>DataView\<close>), \<open>writeMem (0xFFFC + k) v\<close> stores \<open>v\<close> at
  offset \<open>0x3FC + k\<close> of that block and then calls \<open>page k v\<close>, once, on the object holding
  the stored byte; the object that \<open>page\<close> returns is the result. For \<open>a < 0xFFFC\<close> no call of
  \<open>page\<close> occurs, whatever else happens.
\<close>

theorem writeMem_paging_trap:
  fixes this :: "(dataview, 'x) cpu_scheme" and that :: "(jsarray, 'y) cpu_scheme"
  shows
  "(k \<in> {0, 1, 2, 3} \<and> 0 \<le> v \<and> v \<le> 255 \<and> lookup (memWriteMap this) 63 = Some r \<and>
    0x3FC + k < byteLength (heap this r) \<longrightarrow>
      js_sar (0xFFFC + k) 10 = 63 \<and>
      writeMem_dv DEBUG page this (0xFFFC + k) v =
        ([PageCall k v],
         Inr (page k v
           (this\<lparr>heap := (heap this)(r := (heap this r)[nat (0x3FC + k) := word_of_int v])\<rparr>))) \<and>
      uint (word_of_int v :: 8 word) = v) \<and>
   (k \<in> {0, 1, 2, 3} \<and> lookup (memWriteMap that) 63 = Some q \<longrightarrow>
      writeMem_arr page' that (0xFFFC + k) v =
        ([PageCall k v],
         Inr (page' k v (that\<lparr>heap := (heap that)(q := (heap that q)(0x3FC + k := Some v))\<rparr>)))) \<and>
   (a < 0xFFFC \<longrightarrow>
      (\<forall>j w. PageCall j w \<notin> set (fst (writeMem_dv DEBUG page this a v))) \<and>
      (\<forall>j w. PageCall j w \<notin> set (fst (writeMem_arr page' that a v))))"
proof (intro conjI impI allI; (elim conjE)?)
  assume k: "k \<in> {0, 1, 2, 3}"
  then show "js_sar (0xFFFC + k) 10 = 63" by (rule top_addresses)
next
  assume k: "k \<in> {0, 1, 2, 3}" and "0 \<le> v" "v \<le> 255"
    and l: "lookup (memWriteMap this) 63 = Some r" and b: "0x3FC + k < byteLength (heap this r)"
  have "0xFFFC \<le> 0xFFFC + k" using k by auto
  then show "writeMem_dv DEBUG page this (0xFFFC + k) v =
        ([PageCall k v],
         Inr (page k v
           (this\<lparr>heap := (heap this)(r := (heap this r)[nat (0x3FC + k) := word_of_int v])\<rparr>)))"
    using writeMem_dv_stored [of this "0xFFFC + k" r DEBUG page v] l b
    by (simp add: top_addresses [OF k])
next
  assume "0 \<le> v" "v \<le> 255"
  then show "uint (word_of_int v :: 8 word) = v" by (rule u8_roundtrip)
next
  assume k: "k \<in> {0, 1, 2, 3}" and l: "lookup (memWriteMap that) 63 = Some q"
  have "0xFFFC \<le> 0xFFFC + k" using k by auto
  then show "writeMem_arr page' that (0xFFFC + k) v =
        ([PageCall k v],
         Inr (page' k v (that\<lparr>heap := (heap that)(q := (heap that q)(0x3FC + k := Some v))\<rparr>)))"
    using writeMem_arr_stored [of that "0xFFFC + k" q page' v] l
    by (simp add: top_addresses [OF k])
next
  fix j w
  assume a: "a < 0xFFFC"
  show "PageCall j w \<notin> set (fst (writeMem_dv DEBUG page this a v))"
    using a by (simp add: writeMem_dv_def Let_def debug_check_no_PageCall
        split: option.split sum.split)
  show "PageCall j w \<notin> set (fst (writeMem_arr page' that a v))"
    using a by (simp add: writeMem_arr_def Let_def split: option.split)
qed

theorem writeMem_paging_trap_witness:
  "writeMem_dv True page_nop full_dv (0xFFFC + 2) 0x7F =
     ([PageCall 2 0x7F],
      Inr (full_dv\<lparr>heap := (heap full_dv)(63 := (heap full_dv 63)[1022 := 0x7F])\<rparr>)) \<and>
   writeMem_arr page_nop full_arr (0xFFFC + 2) 0x7F =
     ([PageCall 2 0x7F],
      Inr (full_arr\<lparr>heap := (heap full_arr)(63 := (heap full_arr 63)(1022 := Some 0x7F))\<rparr>)) \<and>
   PageCall 2 0x7F \<notin> set (fst (writeMem_dv True page_nop full_dv 0xFFFB 0x7F)) \<and>
   PageCall 2 0x7F \<notin> set (fst (writeMem_arr page_nop full_arr 0xFFFB 0x7F))"
proof -
  have l: "lookup (memWriteMap full_dv) 63 = Some 63" "lookup (memWriteMap full_arr) 63 = Some 63"
    by (simp_all add: full_dv_def full_arr_def lookup_def)
  have b: "byteLength (heap full_dv 63) = 1024"
    by (simp add: full_dv_def byteLength_def)
  note t1 = writeMem_paging_trap [of 2 "0x7F" full_dv 63 True page_nop full_arr 63 page_nop "0xFFFB"]
  have "writeMem_dv True page_nop full_dv (0xFFFC + 2) 0x7F =
     ([PageCall 2 0x7F],
      Inr (full_dv\<lparr>heap := (heap full_dv)(63 := (heap full_dv 63)[1022 := 0x7F])\<rparr>))"
    using t1 [THEN conjunct1] by (simp add: l b page_nop_def)
  moreover have "writeMem_arr page_nop full_arr (0xFFFC + 2) 0x7F =
     ([PageCall 2 0x7F],
      Inr (full_arr\<lparr>heap := (heap full_arr)(63 := (heap full_arr 63)(1022 := Some 0x7F))\<rparr>))"
    using t1 [THEN conjunct2, THEN conjunct1] by (simp add: l page_nop_def)
  moreover have "PageCall 2 0x7F \<notin> set (fst (writeMem_dv True page_nop full_dv 0xFFFB 0x7F)) \<and>
   PageCall 2 0x7F \<notin> set (fst (writeMem_arr page_nop full_arr 0xFFFB 0x7F))"
    using t1 [THEN conjunct2, THEN conjunct2] by simp
  ultimately show ?thesis by simp
qed

section \<open>Write, then read\<close>

lemma readMem_dv_byte:
  assumes "lookup (memReadMap this) (js_sar a 10) = Some r"
    and "js_and a 0x3FF < byteLength (heap this r)"
  shows "snd (readMem_dv D this a) = Inr (uint (heap this r ! nat (js_and a 0x3FF)))"
  using assms js_and_nonneg [of a] by (simp add: readMem_dv_def getUint8_def)

lemma readMem_arr_byte:
  assumes "lookup (memReadMap this) (js_sar a 10) = Some r"
  shows "snd (readMem_arr this a) = Inr (js_and (ToInt32v (heap this r (js_and a 0x3FF))) 0xFF)"
  using assms by (simp add: readMem_arr_def)

lemma js_byte_of_u8: "0 \<le> v \<Longrightarrow> v \<le> 255 \<Longrightarrow> js_and (ToInt32v (Some v)) 0xFF = v"
proof -
  assume v: "0 \<le> v" "v \<le> 255"
  have "ToInt32 v = v" using v by (intro ToInt32_id) simp_all
  moreover have "js_and v 0xFF = v mod 256" using v by (intro js_and_mask8) simp_all
  ultimately show ?thesis using v by (simp add: ToInt32v_def)
qed

lemma roundtrip_dv:
  fixes this :: "(dataview, 'x) cpu_scheme"
  assumes v: "0 \<le> v" "v \<le> 255"
    and w: "lookup (memWriteMap this) (js_sar a 10) = Some r"
    and rd: "lookup (memReadMap this) (js_sar a 10) = Some r"
    and b: "js_and a 0x3FF < byteLength (heap this r)"
    and p: "0xFFFC \<le> a \<longrightarrow>
      (\<forall>s. lookup (memReadMap (page (js_and a 3) v s)) (js_sar a 10) =
             lookup (memReadMap s) (js_sar a 10) \<and>
           heap (page (js_and a 3) v s) r = heap s r)"
  shows "\<exists>ev this'. writeMem_dv D page this a v = (ev, Inr this') \<and>
           snd (readMem_dv D this' a) = Inr v"
proof -
  let ?s = "this\<lparr>heap := (heap this)(r := (heap this r)[nat (js_and a 0x3FF) := word_of_int v])\<rparr>"
  let ?t = "if 0xFFFC \<le> a then page (js_and a 3) v ?s else ?s"
  have l: "lookup (memReadMap ?t) (js_sar a 10) = Some r"
    using rd p by simp
  have h: "heap ?t r = (heap this r)[nat (js_and a 0x3FF) := word_of_int v]"
    using p by simp
  have n: "nat (js_and a 0x3FF) < length (heap this r)"
    using b js_and_nonneg [of a] by (simp add: byteLength_def)
  have "snd (readMem_dv D ?t a) = Inr (uint (heap ?t r ! nat (js_and a 0x3FF)))"
    using l by (rule readMem_dv_byte) (use b h in \<open>simp add: byteLength_def\<close>)
  then have "snd (readMem_dv D ?t a) = Inr v"
    using n v by (simp only: h nth_list_update_eq u8_roundtrip)
  moreover have "\<exists>ev. writeMem_dv D page this a v = (ev, Inr ?t)"
    by (simp add: writeMem_dv_stored [OF w b] Let_def)
  ultimately show ?thesis by blast
qed

lemma roundtrip_arr:
  fixes this :: "(jsarray, 'x) cpu_scheme"
  assumes v: "0 \<le> v" "v \<le> 255"
    and w: "lookup (memWriteMap this) (js_sar a 10) = Some r"
    and rd: "lookup (memReadMap this) (js_sar a 10) = Some r"
    and p: "0xFFFC \<le> a \<longrightarrow>
      (\<forall>s. lookup (memReadMap (page (js_and a 3) v s)) (js_sar a 10) =
             lookup (memReadMap s) (js_sar a 10) \<and>
           heap (page (js_and a 3) v s) r = heap s r)"
  shows "\<exists>ev this'. writeMem_arr page this a v = (ev, Inr this') \<and>
           snd (readMem_arr this' a) = Inr v"
proof -
  let ?s = "this\<lparr>heap := (heap this)(r := (heap this r)(js_and a 0x3FF := Some v))\<rparr>"
  let ?t = "if 0xFFFC \<le> a then page (js_and a 3) v ?s else ?s"
  have l: "lookup (memReadMap ?t) (js_sar a 10) = Some r"
    using rd p by simp
  have h: "heap ?t r = (heap this r)(js_and a 0x3FF := Some v)"
    using p by simp
  have "snd (readMem_arr ?t a) = Inr (js_and (ToInt32v (heap ?t r (js_and a 0x3FF))) 0xFF)"
    using l by (rule readMem_arr_byte)
  then have "snd (readMem_arr ?t a) = Inr v"
    using v by (simp only: h fun_upd_same js_byte_of_u8)
  moreover have "\<exists>ev. writeMem_arr page this a v = (ev, Inr ?t)"
    by (simp add: writeMem_arr_stored [OF w] Let_def)
  ultimately show ?thesis by blast
qed

lemma scenario_dv:
  "\<exists>ev this'. writeMem_dv D page zero_page0_dv 0x0003 0x7F = (ev, Inr this') \<and>
      snd (readMem_dv D this' 0x0003) = Inr 0x7F \<and>
      snd (readMemWord_dv D True this' 0x0002) = Inr 0x7F00"
  by (simp add: writeMem_dv_def readMem_dv_def readMemWord_dv_def zero_page0_dv_def
      lookup_def setInt8_def getUint8_def getUint16_def byteLength_def js_sar_def js_and_def
      ToInt32_def Let_def)

lemma scenario_arr:
  "\<exists>ev this'. writeMem_arr page zero_page0_arr 0x0003 0x7F = (ev, Inr this') \<and>
      snd (readMem_arr this' 0x0003) = Inr 0x7F \<and>
      snd (readMemWord_arr this' 0x0002) = Inr 0x7F00"
  by (simp add: writeMem_arr_def readMem_arr_def readMemWord_arr_def zero_page0_arr_def
      lookup_def js_sar_def js_and_def js_or_def js_shl_def ToInt32_def ToInt32v_def Let_def)

text \<open>
  C5. With the page of \<open>a\<close> bound to the same block in the write map and the read map
  (a block that covers the offset, for a \<open>DataView\<close>) and \<open>v\<close> in 0..255, \<open>writeMem a v\<close>
  completes and \<open>readMem a\<close> on the resulting object returns \<open>v\<close>. For \<open>a \<ge> 0xFFFC\<close> the
  resulting object is the one the handler \<open>page\<close> returns; the handler lives outside
  \<^verbatim>\<open>utils.js\<close>, and the statement takes one that leaves the read binding of the page and the
  block alone. In the scenario of the specification, block 0 being 1024 zero bytes bound as
  page 0, \<open>writeMem 0x0003 0x7F\<close> is followed by \<open>readMem 0x0003 = 0x7F\<close> and
  \<open>readMemWord 0x0002 = 0x7F00\<close>.
\<close>

theorem write_read_roundtrip:
  fixes this :: "(dataview, 'x) cpu_scheme" and that :: "(jsarray, 'y) cpu_scheme"
    and page0 :: "int \<Rightarrow> int \<Rightarrow> dataview cpu \<Rightarrow> dataview cpu"
    and page0' :: "int \<Rightarrow> int \<Rightarrow> jsarray cpu \<Rightarrow> jsarray cpu"
  shows
  "(0 \<le> v \<and> v \<le> 255 \<and>
    lookup (memWriteMap this) (js_sar a 10) = Some r \<and>
    lookup (memReadMap this) (js_sar a 10) = Some r \<and>
    js_and a 0x3FF < byteLength (heap this r) \<and>
    (0xFFFC \<le> a \<longrightarrow>
      (\<forall>s. lookup (memReadMap (page (js_and a 3) v s)) (js_sar a 10) =
             lookup (memReadMap s) (js_sar a 10) \<and>
           heap (page (js_and a 3) v s) r = heap s r)) \<longrightarrow>
      (\<exists>ev this'. writeMem_dv DEBUG page this a v = (ev, Inr this') \<and>
         snd (readMem_dv DEBUG this' a) = Inr v)) \<and>
   (0 \<le> v \<and> v \<le> 255 \<and>
    lookup (memWriteMap that) (js_sar a 10) = Some q \<and>
    lookup (memReadMap that) (js_sar a 10) = Some q \<and>
    (0xFFFC \<le> a \<longrightarrow>
      (\<forall>s. lookup (memReadMap (page' (js_and a 3) v s)) (js_sar a 10) =
             lookup (memReadMap s) (js_sar a 10) \<and>
           heap (page' (js_and a 3) v s) q = heap s q)) \<longrightarrow>
      (\<exists>ev that'. writeMem_arr page' that a v = (ev, Inr that') \<and>
         snd (readMem_arr that' a) = Inr v)) \<and>
   (\<exists>ev this'. writeMem_dv DEBUG page0 zero_page0_dv 0x0003 0x7F = (ev, Inr this') \<and>
      snd (readMem_dv DEBUG this' 0x0003) = Inr 0x7F \<and>
      snd (readMemWord_dv DEBUG True this' 0x0002) = Inr 0x7F00) \<and>
   (\<exists>ev that'. writeMem_arr page0' zero_page0_arr 0x0003 0x7F = (ev, Inr that') \<and>
      snd (readMem_arr that' 0x0003) = Inr 0x7F \<and>
      snd (readMemWord_arr that' 0x0002) = Inr 0x7F00)"
proof (intro conjI impI; (elim conjE)?)
  assume "0 \<le> v" "v \<le> 255" "lookup (memWriteMap this) (js_sar a 10) = Some r"
    "lookup (memReadMap this) (js_sar a 10) = Some r"
    "js_and a 0x3FF < byteLength (heap this r)"
    "0xFFFC \<le> a \<longrightarrow>
      (\<forall>s. lookup (memReadMap (page (js_and a 3) v s)) (js_sar a 10) =
             lookup (memReadMap s) (js_sar a 10) \<and>
           heap (page (js_and a 3) v s) r = heap s r)"
  then show "\<exists>ev this'. writeMem_dv DEBUG page this a v = (ev, Inr this') \<and>
         snd (readMem_dv DEBUG this' a) = Inr v"
    by (rule roundtrip_dv)
next
  assume "0 \<le> v" "v \<le> 255" "lookup (memWriteMap that) (js_sar a 10) = Some q"
    "lookup (memReadMap that) (js_sar a 10) = Some q"
    "0xFFFC \<le> a \<longrightarrow>
      (\<forall>s. lookup (memReadMap (page' (js_and a 3) v s)) (js_sar a 10) =
             lookup (memReadMap s) (js_sar a 10) \<and>
           heap (page' (js_and a 3) v s) q = heap s q)"
  then show "\<exists>ev that'. writeMem_arr page' that a v = (ev, Inr that') \<and>
         snd (readMem_arr that' a) = Inr v"
    by (rule roundtrip_arr)
next
  show "\<exists>ev this'. writeMem_dv DEBUG page0 zero_page0_dv 0x0003 0x7F = (ev, Inr this') \<and>
      snd (readMem_dv DEBUG this' 0x0003) = Inr 0x7F \<and>
      snd (readMemWord_dv DEBUG True this' 0x0002) = Inr 0x7F00"
    by (rule scenario_dv)
next
  show "\<exists>ev that'. writeMem_arr page0' zero_page0_arr 0x0003 0x7F = (ev, Inr that') \<and>
      snd (readMem_arr that' 0x0003) = Inr 0x7F \<and>
      snd (readMemWord_arr that' 0x0002) = Inr 0x7F00"
    by (rule scenario_arr)
qed

theorem write_read_roundtrip_witness:
  "(\<exists>ev this'. writeMem_dv True page_rebind0 full_dv 0xFFFD 0xA5 = (ev, Inr this') \<and>
      snd (readMem_dv True this' 0xFFFD) = Inr 0xA5) \<and>
   (\<exists>ev that'. writeMem_arr page_rebind0 full_arr 0xFFFD 0xA5 = (ev, Inr that') \<and>
      snd (readMem_arr that' 0xFFFD) = Inr 0xA5)"
proof -
  have e: "js_sar 0xFFFD 10 = 63" "js_and 0xFFFD 0x3FF = 0x3FD" "js_and 0xFFFD 3 = 1"
    by (simp_all add: js_sar_def js_and_def ToInt32_def)
  have l: "lookup (memWriteMap full_dv) 63 = Some 63" "lookup (memReadMap full_dv) 63 = Some 63"
    "lookup (memWriteMap full_arr) 63 = Some 63" "lookup (memReadMap full_arr) 63 = Some 63"
    by (simp_all add: full_dv_def full_arr_def lookup_def)
  have b: "byteLength (heap full_dv 63) = 1024"
    by (simp add: full_dv_def byteLength_def)
  have p: "lookup (memReadMap (page_rebind0 k w s)) 63 = lookup (memReadMap s) 63"
    "heap (page_rebind0 k w s) = heap s" for k w and s :: "('b, 'z) cpu_scheme"
    by (simp_all add: page_rebind0_def lookup_def)
  note t = write_read_roundtrip [of "0xA5" full_dv "0xFFFD" 63 page_rebind0 True full_arr 63
      page_rebind0 page_nop page_nop]
  have "\<exists>ev this'. writeMem_dv True page_rebind0 full_dv 0xFFFD 0xA5 = (ev, Inr this') \<and>
      snd (readMem_dv True this' 0xFFFD) = Inr 0xA5"
    using t [THEN conjunct1] by (simp add: e l b p)
  moreover have "\<exists>ev that'. writeMem_arr page_rebind0 full_arr 0xFFFD 0xA5 = (ev, Inr that') \<and>
      snd (readMem_arr that' 0xFFFD) = Inr 0xA5"
    using t [THEN conjunct2, THEN conjunct1] by (simp add: e l p)
  ultimately show ?thesis by simp
qed

section \<open>The top of the address space\<close>

lemma top_word_address:
  "js_sar 0xFFFF 10 = 63" "js_and 0xFFFF 0x3FF = 0x3FF"
  "js_sar (0xFFFF + 1) 10 = 64" "js_and (0xFFFF + 1) 0x3FF = 0"
  by (simp_all add: js_sar_def js_and_def ToInt32_def)

lemma lookup_past_end: "int (length m) \<le> i \<Longrightarrow> lookup m i = None"
  by (simp add: lookup_def)

lemma readMemWord_dv_top:
  assumes "length (memReadMap this) = 64"
  shows "\<exists>e. snd (readMemWord_dv D LE this 0xFFFF) = Inl e"
    and "lookup (memReadMap this) 63 = Some r \<Longrightarrow> 1024 \<le> byteLength (heap this r) \<Longrightarrow>
         snd (readMemWord_dv D LE this 0xFFFF) = Inl TypeError"
proof -
  have n: "lookup (memReadMap this) 64 = None"
    using assms by (simp add: lookup_past_end)
  have f: "snd (readMemWord_dv D LE this 0xFFFF) =
      (case lookup (memReadMap this) 63 of
         None \<Rightarrow> Inl TypeError
       | Some r \<Rightarrow> (case getUint8 (heap this r) 0x3FF of Inl e \<Rightarrow> Inl e | Inr lo \<Rightarrow> Inl TypeError))"
    using top_word_address n
    by (simp add: readMemWord_dv_def split: option.split sum.split)
  show "\<exists>e. snd (readMemWord_dv D LE this 0xFFFF) = Inl e"
    unfolding f by (simp split: option.split sum.split)
  show "snd (readMemWord_dv D LE this 0xFFFF) = Inl TypeError"
    if "lookup (memReadMap this) 63 = Some r" "1024 \<le> byteLength (heap this r)"
    unfolding f using that by (simp add: getUint8_def)
qed

lemma readMemWord_arr_top:
  assumes "length (memReadMap this) = 64"
  shows "snd (readMemWord_arr this 0xFFFF) = Inl TypeError"
proof -
  have n: "lookup (memReadMap this) 64 = None"
    using assms by (simp add: lookup_past_end)
  show ?thesis using top_word_address n
    by (simp add: readMemWord_arr_def Let_def split: option.split)
qed

lemma lookup_bound:
  assumes "length m = 64" and "\<forall>p<64. \<exists>r. m ! p = Some r \<and> P r" and "0 \<le> i" "i \<le> 63"
  shows "\<exists>r. lookup m i = Some r \<and> P r"
proof -
  have "nat i < 64" using assms by simp
  then have "\<exists>r. m ! nat i = Some r \<and> P r" using assms(2) by blast
  then show ?thesis using assms by (simp add: lookup_def)
qed

lemma js_and_offset_le: "js_and a 0x3FF \<le> 1023"
proof -
  have "ToInt32 1023 = 1023" by (simp add: ToInt32_def)
  moreover have "ToInt32 a AND 1023 \<le> 1023" by (rule AND_upper2) simp
  ultimately show ?thesis by (simp add: js_and_def)
qed

lemma word_pages:
  assumes "0 \<le> a" "a \<le> 0xFFFE"
  shows "0 \<le> js_sar a 10" "js_sar a 10 \<le> 63"
    and "0 \<le> js_sar (a + 1) 10" "js_sar (a + 1) 10 \<le> 63"
proof -
  have s: "js_sar a 10 = a div 1024" using assms by (intro addr16_sar) simp_all
  show "0 \<le> js_sar a 10" "js_sar a 10 \<le> 63" using assms by (simp_all add: s)
  have s1: "js_sar (a + 1) 10 = (a + 1) div 1024"
    using assms js_sar_div [of "a + 1" 10] by simp
  show "0 \<le> js_sar (a + 1) 10" "js_sar (a + 1) 10 \<le> 63" using assms by (simp_all add: s1)
qed

lemma readMemWord_dv_defined:
  fixes this :: "(dataview, 'x) cpu_scheme"
  assumes len: "length (memReadMap this) = 64"
    and inv: "\<forall>p<64. \<exists>r. memReadMap this ! p = Some r \<and> 1024 \<le> byteLength (heap this r)"
    and a: "0 \<le> a" "a \<le> 0xFFFE"
  shows "\<exists>w. snd (readMemWord_dv D LE this a) = Inr w"
proof -
  obtain r where r: "lookup (memReadMap this) (js_sar a 10) = Some r"
      "1024 \<le> byteLength (heap this r)"
    using lookup_bound [OF len inv word_pages(1,2) [OF a]] by blast
  obtain r' where r': "lookup (memReadMap this) (js_sar (a + 1) 10) = Some r'"
      "1024 \<le> byteLength (heap this r')"
    using lookup_bound [OF len inv word_pages(3,4) [OF a]] by blast
  note o = js_and_nonneg [of a] js_and_offset_le [of a]
    js_and_nonneg [of "a + 1"] js_and_offset_le [of "a + 1"]
  show ?thesis
  proof (cases "js_and a 0x3FF < 0x3FF")
    case True
    then show ?thesis using r o
      by (simp add: readMemWord_dv_def getUint16_def Let_def)
  next
    case False
    then show ?thesis using r r' o
      by (simp add: readMemWord_dv_def getUint8_def)
  qed
qed

lemma readMemWord_arr_defined:
  fixes this :: "(jsarray, 'x) cpu_scheme"
  assumes len: "length (memReadMap this) = 64"
    and inv: "\<forall>p<64. \<exists>r. memReadMap this ! p = Some r"
    and a: "0 \<le> a" "a \<le> 0xFFFE"
  shows "\<exists>w. snd (readMemWord_arr this a) = Inr w"
proof -
  have inv': "\<forall>p<64. \<exists>r. memReadMap this ! p = Some r \<and> True" using inv by simp
  obtain r where r: "lookup (memReadMap this) (js_sar a 10) = Some r"
    using lookup_bound [OF len inv' word_pages(1,2) [OF a]] by blast
  obtain r' where r': "lookup (memReadMap this) (js_sar (a + 1) 10) = Some r'"
    using lookup_bound [OF len inv' word_pages(3,4) [OF a]] by blast
  show ?thesis using r r' by (simp add: readMemWord_arr_def Let_def)
qed

text \<open>
  C10. \<open>readMemWord 0xFFFF\<close> takes the page-boundary path and looks the high byte up at
  page index \<open>(0xFFFF + 1) >> 10 = 64\<close>. With a read map of 64 entries that entry is
  \<^verbatim>\<open>undefined\<close>, so the call never yields a word: it throws, a \<^verbatim>\<open>TypeError\<close> from that lookup
  once the low byte has been read. Under the page-table invariant, all 64 pages bound (to
  blocks of at least 1024 bytes, for a \<open>DataView\<close>), every address in \<open>0..0xFFFE\<close> does yield
  a word.
\<close>

theorem readMemWord_top_address:
  fixes this :: "(dataview, 'x) cpu_scheme" and that :: "(jsarray, 'y) cpu_scheme"
  shows
  "js_and 0xFFFF 0x3FF = 0x3FF \<and> js_sar (0xFFFF + 1) 10 = 64 \<and>
   (length (memReadMap this) = 64 \<longrightarrow>
      (\<exists>e. snd (readMemWord_dv DEBUG LITTLE_ENDIAN this 0xFFFF) = Inl e)) \<and>
   (length (memReadMap this) = 64 \<and> lookup (memReadMap this) 63 = Some r \<and>
    1024 \<le> byteLength (heap this r) \<longrightarrow>
      snd (readMemWord_dv DEBUG LITTLE_ENDIAN this 0xFFFF) = Inl TypeError) \<and>
   (length (memReadMap that) = 64 \<longrightarrow>
      snd (readMemWord_arr that 0xFFFF) = Inl TypeError) \<and>
   (length (memReadMap this) = 64 \<and>
    (\<forall>p<64. \<exists>r. memReadMap this ! p = Some r \<and> 1024 \<le> byteLength (heap this r)) \<and>
    0 \<le> a \<and> a \<le> 0xFFFE \<longrightarrow>
      (\<exists>w. snd (readMemWord_dv DEBUG LITTLE_ENDIAN this a) = Inr w)) \<and>
   (length (memReadMap that) = 64 \<and> (\<forall>p<64. \<exists>r. memReadMap that ! p = Some r) \<and>
    0 \<le> a \<and> a \<le> 0xFFFE \<longrightarrow>
      (\<exists>w. snd (readMemWord_arr that a) = Inr w))"
proof (intro conjI impI; (elim conjE)?)
  show "js_and 0xFFFF 0x3FF = 0x3FF" "js_sar (0xFFFF + 1) 10 = 64"
    by (rule top_word_address)+
next
  assume "length (memReadMap this) = 64"
  then show "\<exists>e. snd (readMemWord_dv DEBUG LITTLE_ENDIAN this 0xFFFF) = Inl e"
    by (rule readMemWord_dv_top)
next
  assume "length (memReadMap this) = 64" "lookup (memReadMap this) 63 = Some r"
    "1024 \<le> byteLength (heap this r)"
  then show "snd (readMemWord_dv DEBUG LITTLE_ENDIAN this 0xFFFF) = Inl TypeError"
    by (rule readMemWord_dv_top)
next
  assume "length (memReadMap that) = 64"
  then show "snd (readMemWord_arr that 0xFFFF) = Inl TypeError"
    by (rule readMemWord_arr_top)
next
  assume "length (memReadMap this) = 64"
    "\<forall>p<64. \<exists>r. memReadMap this ! p = Some r \<and> 1024 \<le> byteLength (heap this r)"
    "0 \<le> a" "a \<le> 0xFFFE"
  then show "\<exists>w. snd (readMemWord_dv DEBUG LITTLE_ENDIAN this a) = Inr w"
    by (rule readMemWord_dv_defined)
next
  assume "length (memReadMap that) = 64" "\<forall>p<64. \<exists>r. memReadMap that ! p = Some r"
    "0 \<le> a" "a \<le> 0xFFFE"
  then show "\<exists>w. snd (readMemWord_arr that a) = Inr w"
    by (rule readMemWord_arr_defined)
qed

theorem readMemWord_top_address_witness:
  "snd (readMemWord_dv False True full_dv 0xFFFF) = Inl TypeError \<and>
   snd (readMemWord_arr full_arr 0xFFFF) = Inl TypeError \<and>
   (\<exists>w. snd (readMemWord_dv False True full_dv 0xFFFE) = Inr w) \<and>
   (\<exists>w. snd (readMemWord_arr full_arr 0xFFFE) = Inr w)"
proof -
  have n: "length (memReadMap full_dv) = 64" "length (memReadMap full_arr) = 64"
    by (simp_all add: full_dv_def full_arr_def)
  have l: "lookup (memReadMap full_dv) 63 = Some 63"
    by (simp add: full_dv_def lookup_def)
  have b: "byteLength (heap full_dv r) = 1024" for r
    by (simp add: full_dv_def byteLength_def)
  have i: "\<forall>p<64. memReadMap full_dv ! p = Some p" "\<forall>p<64. memReadMap full_arr ! p = Some p"
    by (simp_all add: full_dv_def full_arr_def)
  note t = readMemWord_top_address [of full_dv False True 63 full_arr "0xFFFE"]
  have "snd (readMemWord_dv False True full_dv 0xFFFF) = Inl TypeError"
    using t [THEN conjunct2, THEN conjunct2, THEN conjunct2, THEN conjunct1] by (simp add: n l b)
  moreover have "snd (readMemWord_arr full_arr 0xFFFF) = Inl TypeError"
    using t [THEN conjunct2, THEN conjunct2, THEN conjunct2, THEN conjunct2, THEN conjunct1]
    by (simp add: n)
  moreover have "\<exists>w. snd (readMemWord_dv False True full_dv 0xFFFE) = Inr w"
    using t [THEN conjunct2, THEN conjunct2, THEN conjunct2, THEN conjunct2, THEN conjunct2,
        THEN conjunct1] by (simp add: n b i)
  moreover have "\<exists>w. snd (readMemWord_arr full_arr 0xFFFE) = Inr w"
    using t [THEN conjunct2, THEN conjunct2, THEN conjunct2, THEN conjunct2, THEN conjunct2,
        THEN conjunct2] by (simp add: n i)
  ultimately show ?thesis by simp
qed

section \<open>Unbound pages and short blocks\<close>

text \<open>
  C7, as stated, fails. The array closures contain no \<^verbatim>\<open>DEBUG\<close> block, whatever the build:
  on a block of four elements, reading offset 4, reading the word at offset 3 and writing
  offset 4 all complete silently (the reads yield 0, the write extends the array).
\<close>

theorem debug_mode_raises_counterexample:
  "readMem_arr short_arr 0x0004 = ([], Inr 0) \<and>
   readMemWord_arr short_arr 0x0003 = ([], Inr 0) \<and>
   writeMem_arr page_nop short_arr 0x0004 9 =
     ([], Inr (short_arr\<lparr>heap := (heap short_arr)(0 := (heap short_arr 0)(4 := Some 9))\<rparr>))"
  by (simp add: readMem_arr_def readMemWord_arr_def writeMem_arr_def
      short_arr_def page_nop_def lookup_def
      js_sar_def js_and_def js_or_def js_shl_def ToInt32_def ToInt32v_def Let_def)

lemma readMem_dv_thrown:
  assumes "lookup (memReadMap this) (js_sar a 10) = None \<or>
    (\<exists>r. lookup (memReadMap this) (js_sar a 10) = Some r \<and> byteLength (heap this r) \<le> js_and a 0x3FF)"
  shows "readMem_dv D this a =
     (debug_check D (memReadMap this) (heap this) a,
      Inl (if lookup (memReadMap this) (js_sar a 10) = None then TypeError else RangeError))"
  using assms by (auto simp add: readMem_dv_def getUint8_def)

lemma readMemWord_dv_thrown:
  assumes "lookup (memReadMap this) (js_sar a 10) = None \<or>
    (\<exists>r. lookup (memReadMap this) (js_sar a 10) = Some r \<and> byteLength (heap this r) \<le> js_and a 0x3FF)"
  shows "readMemWord_dv D LE this a =
     (debug_check D (memReadMap this) (heap this) a,
      Inl (if lookup (memReadMap this) (js_sar a 10) = None then TypeError else RangeError))"
  using assms by (auto simp add: readMemWord_dv_def getUint8_def getUint16_def)

lemma readMemWord_dv_thrown_second:
  assumes "lookup (memReadMap this) (js_sar a 10) = Some r" and "js_and a 0x3FF < 0x3FF"
    and "byteLength (heap this r) \<le> js_and a 0x3FF + 1"
  shows "snd (readMemWord_dv D LE this a) = Inl RangeError"
  using assms by (simp add: readMemWord_dv_def getUint16_def)

text \<open>
  C7, amended. The \<open>DataView\<close> accessors throw when the page is unbound (\<^verbatim>\<open>TypeError\<close>) and
  when the block does not cover the offset, or the offset plus one for a word inside a page
  (\<^verbatim>\<open>RangeError\<close>); they do so in every build, since it is the access itself that throws.
  With \<^verbatim>\<open>DEBUG\<close> on, an unbound page or an offset at or beyond \<open>byteLength\<close> is first reported
  by \<^verbatim>\<open>console.error\<close> and a \<^verbatim>\<open>debugger\<close> stop. The array accessors throw a \<^verbatim>\<open>TypeError\<close> on
  an unbound page and read an element that is not there as 0.
\<close>

theorem debug_mode_diagnostics:
  fixes this :: "(dataview, 'x) cpu_scheme" and that :: "(jsarray, 'y) cpu_scheme"
  shows
  "(lookup (memReadMap this) (js_sar a 10) = None \<longrightarrow>
      snd (readMem_dv DEBUG this a) = Inl TypeError \<and>
      snd (readMemWord_dv DEBUG LITTLE_ENDIAN this a) = Inl TypeError \<and>
      fst (readMem_dv True this a) = [ConsoleError a (js_sar a 10) (js_and a 0x3FF), Debugger] \<and>
      fst (readMemWord_dv True LITTLE_ENDIAN this a) =
        [ConsoleError a (js_sar a 10) (js_and a 0x3FF), Debugger]) \<and>
   (lookup (memWriteMap this) (js_sar a 10) = None \<longrightarrow>
      writeMem_dv DEBUG page this a v =
        (if DEBUG then [ConsoleError a (js_sar a 10) (js_and a 0x3FF), Debugger] else [],
         Inl TypeError)) \<and>
   (lookup (memReadMap this) (js_sar a 10) = Some r \<and>
    byteLength (heap this r) \<le> js_and a 0x3FF \<longrightarrow>
      snd (readMem_dv DEBUG this a) = Inl RangeError \<and>
      snd (readMemWord_dv DEBUG LITTLE_ENDIAN this a) = Inl RangeError \<and>
      fst (readMem_dv True this a) = [ConsoleError a (js_sar a 10) (js_and a 0x3FF), Debugger] \<and>
      fst (readMemWord_dv True LITTLE_ENDIAN this a) =
        [ConsoleError a (js_sar a 10) (js_and a 0x3FF), Debugger]) \<and>
   (lookup (memWriteMap this) (js_sar a 10) = Some r \<and>
    byteLength (heap this r) \<le> js_and a 0x3FF \<longrightarrow>
      writeMem_dv DEBUG page this a v =
        (if DEBUG then [ConsoleError a (js_sar a 10) (js_and a 0x3FF), Debugger] else [],
         Inl RangeError)) \<and>
   (lookup (memReadMap this) (js_sar a 10) = Some r \<and> js_and a 0x3FF < 0x3FF \<and>
    byteLength (heap this r) \<le> js_and a 0x3FF + 1 \<longrightarrow>
      snd (readMemWord_dv DEBUG LITTLE_ENDIAN this a) = Inl RangeError) \<and>
   (lookup (memReadMap that) (js_sar a 10) = None \<longrightarrow>
      readMem_arr that a = ([], Inl TypeError) \<and>
      readMemWord_arr that a = ([], Inl TypeError)) \<and>
   (lookup (memWriteMap that) (js_sar a 10) = None \<longrightarrow>
      writeMem_arr page' that a v = ([], Inl TypeError)) \<and>
   (lookup (memReadMap that) (js_sar a 10) = Some q \<and> heap that q (js_and a 0x3FF) = None \<longrightarrow>
      readMem_arr that a = ([], Inr 0))"
proof (intro conjI impI; (elim conjE)?)
  assume n: "lookup (memReadMap this) (js_sar a 10) = None"
  then have f: "lookup (memReadMap this) (js_sar a 10) = None \<or>
    (\<exists>r. lookup (memReadMap this) (js_sar a 10) = Some r \<and> byteLength (heap this r) \<le> js_and a 0x3FF)"
    by simp
  show "snd (readMem_dv DEBUG this a) = Inl TypeError"
    "snd (readMemWord_dv DEBUG LITTLE_ENDIAN this a) = Inl TypeError"
    using n by (simp_all add: readMem_dv_thrown [OF f] readMemWord_dv_thrown [OF f])
  show "fst (readMem_dv True this a) = [ConsoleError a (js_sar a 10) (js_and a 0x3FF), Debugger]"
    "fst (readMemWord_dv True LITTLE_ENDIAN this a) =
        [ConsoleError a (js_sar a 10) (js_and a 0x3FF), Debugger]"
    by (simp_all add: readMem_dv_thrown [OF f] readMemWord_dv_thrown [OF f] debug_check_fires [OF f])
next
  assume n: "lookup (memWriteMap this) (js_sar a 10) = None"
  then have f: "lookup (memWriteMap this) (js_sar a 10) = None \<or>
    (\<exists>r. lookup (memWriteMap this) (js_sar a 10) = Some r \<and> byteLength (heap this r) \<le> js_and a 0x3FF)"
    by simp
  show "writeMem_dv DEBUG page this a v =
        (if DEBUG then [ConsoleError a (js_sar a 10) (js_and a 0x3FF), Debugger] else [],
         Inl TypeError)"
    using n debug_check_fires [OF f] by (simp add: writeMem_dv_thrown [OF f] debug_check_def)
next
  assume n: "lookup (memReadMap this) (js_sar a 10) = Some r"
    "byteLength (heap this r) \<le> js_and a 0x3FF"
  then have f: "lookup (memReadMap this) (js_sar a 10) = None \<or>
    (\<exists>r. lookup (memReadMap this) (js_sar a 10) = Some r \<and> byteLength (heap this r) \<le> js_and a 0x3FF)"
    by simp
  show "snd (readMem_dv DEBUG this a) = Inl RangeError"
    "snd (readMemWord_dv DEBUG LITTLE_ENDIAN this a) = Inl RangeError"
    using n by (simp_all add: readMem_dv_thrown [OF f] readMemWord_dv_thrown [OF f])
  show "fst (readMem_dv True this a) = [ConsoleError a (js_sar a 10) (js_and a 0x3FF), Debugger]"
    "fst (readMemWord_dv True LITTLE_ENDIAN this a) =
        [ConsoleError a (js_sar a 10) (js_and a 0x3FF), Debugger]"
    by (simp_all add: readMem_dv_thrown [OF f] readMemWord_dv_thrown [OF f] debug_check_fires [OF f])
next
  assume n: "lookup (memWriteMap this) (js_sar a 10) = Some r"
    "byteLength (heap this r) \<le> js_and a 0x3FF"
  then have f: "lookup (memWriteMap this) (js_sar a 10) = None \<or>
    (\<exists>r. lookup (memWriteMap this) (js_sar a 10) = Some r \<and> byteLength (heap this r) \<le> js_and a 0x3FF)"
    by simp
  show "writeMem_dv DEBUG page this a v =
        (if DEBUG then [ConsoleError a (js_sar a 10) (js_and a 0x3FF), Debugger] else [],
         Inl RangeError)"
    using n debug_check_fires [OF f] by (simp add: writeMem_dv_thrown [OF f] debug_check_def)
next
  assume "lookup (memReadMap this) (js_sar a 10) = Some r" "js_and a 0x3FF < 0x3FF"
    "byteLength (heap this r) \<le> js_and a 0x3FF + 1"
  then show "snd (readMemWord_dv DEBUG LITTLE_ENDIAN this a) = Inl RangeError"
    by (rule readMemWord_dv_thrown_second)
next
  assume n: "lookup (memReadMap that) (js_sar a 10) = None"
  show "readMem_arr that a = ([], Inl TypeError)" using n by (simp add: readMem_arr_def)
  show "readMemWord_arr that a = ([], Inl TypeError)" using n by (simp add: readMemWord_arr_def)
next
  assume "lookup (memWriteMap that) (js_sar a 10) = None"
  then show "writeMem_arr page' that a v = ([], Inl TypeError)" by (rule writeMem_arr_thrown)
next
  assume "lookup (memReadMap that) (js_sar a 10) = Some q" "heap that q (js_and a 0x3FF) = None"
  then show "readMem_arr that a = ([], Inr 0)"
    by (simp add: readMem_arr_def ToInt32v_def js_and_def ToInt32_def)
qed

theorem debug_mode_diagnostics_witness:
  "readMem_dv True zero_page0_dv 0x0400 = ([ConsoleError 0x0400 1 0, Debugger], Inl TypeError) \<and>
   writeMem_dv True page_nop zero_page0_dv 0x0400 1 =
     ([ConsoleError 0x0400 1 0, Debugger], Inl TypeError) \<and>
   readMem_dv True short_dv 0x0004 = ([ConsoleError 0x0004 0 4, Debugger], Inl RangeError) \<and>
   writeMem_dv True page_nop short_dv 0x0004 1 =
     ([ConsoleError 0x0004 0 4, Debugger], Inl RangeError) \<and>
   snd (readMemWord_dv True True short_dv 0x0003) = Inl RangeError \<and>
   readMem_arr zero_page0_arr 0x0400 = ([], Inl TypeError) \<and>
   writeMem_arr page_nop zero_page0_arr 0x0400 1 = ([], Inl TypeError) \<and>
   readMem_arr short_arr 0x0004 = ([], Inr 0)"
proof -
  have e: "js_sar 0x400 10 = 1" "js_and 0x400 0x3FF = 0" "js_sar 4 10 = 0" "js_and 4 0x3FF = 4"
    "js_sar 3 10 = 0" "js_and 3 0x3FF = 3"
    by (simp_all add: js_sar_def js_and_def ToInt32_def)
  have l: "lookup (memReadMap zero_page0_dv) 1 = None" "lookup (memWriteMap zero_page0_dv) 1 = None"
    "lookup (memReadMap short_dv) 0 = Some 0" "lookup (memWriteMap short_dv) 0 = Some 0"
    "lookup (memReadMap zero_page0_arr) 1 = None" "lookup (memWriteMap zero_page0_arr) 1 = None"
    "lookup (memReadMap short_arr) 0 = Some 0"
    by (simp_all add: zero_page0_dv_def zero_page0_arr_def short_dv_def short_arr_def lookup_def)
  have b: "byteLength (heap short_dv 0) = 4" "heap short_arr 0 4 = None"
    by (simp_all add: short_dv_def short_arr_def byteLength_def)
  note t1 = debug_mode_diagnostics [of zero_page0_dv "0x400" True True page_nop 1 0 zero_page0_arr page_nop 0]
  note t2 = debug_mode_diagnostics [of short_dv 4 True True page_nop 1 0 short_arr page_nop 0]
  note t3 = debug_mode_diagnostics [of short_dv 3 True True page_nop 1 0 short_arr page_nop 0]
  have "readMem_dv True zero_page0_dv 0x0400 = ([ConsoleError 0x0400 1 0, Debugger], Inl TypeError)"
    using t1 [THEN conjunct1] by (simp add: e l prod_eq_iff)
  moreover have "writeMem_dv True page_nop zero_page0_dv 0x0400 1 =
     ([ConsoleError 0x0400 1 0, Debugger], Inl TypeError)"
    using t1 [THEN conjunct2, THEN conjunct1] by (simp add: e l)
  moreover have "readMem_dv True short_dv 0x0004 = ([ConsoleError 0x0004 0 4, Debugger], Inl RangeError)"
    using t2 [THEN conjunct2, THEN conjunct2, THEN conjunct1] by (simp add: e l b prod_eq_iff)
  moreover have "writeMem_dv True page_nop short_dv 0x0004 1 =
     ([ConsoleError 0x0004 0 4, Debugger], Inl RangeError)"
    using t2 [THEN conjunct2, THEN conjunct2, THEN conjunct2, THEN conjunct1] by (simp add: e l b)
  moreover have "snd (readMemWord_dv True True short_dv 0x0003) = Inl RangeError"
    using t3 [THEN conjunct2, THEN conjunct2, THEN conjunct2, THEN conjunct2, THEN conjunct1]
    by (simp add: e l b)
  moreover have "readMem_arr zero_page0_arr 0x0400 = ([], Inl TypeError)"
    using t1 [THEN conjunct2, THEN conjunct2, THEN conjunct2, THEN conjunct2, THEN conjunct2,
        THEN conjunct1] by (simp add: e l)
  moreover have "writeMem_arr page_nop zero_page0_arr 0x0400 1 = ([], Inl TypeError)"
    using t1 [THEN conjunct2, THEN conjunct2, THEN conjunct2, THEN conjunct2, THEN conjunct2,
        THEN conjunct2, THEN conjunct1] by (simp add: e l)
  moreover have "readMem_arr short_arr 0x0004 = ([], Inr 0)"
    using t2 [THEN conjunct2, THEN conjunct2, THEN conjunct2, THEN conjunct2, THEN conjunct2,
        THEN conjunct2, THEN conjunct2] by (simp add: e l b)
  ultimately show ?thesis by simp
qed

section \<open>Copying a range\<close>

lemma copy_schedule_0: "copy_schedule 0 sp dp = []"
  by (simp add: copy_schedule_def)

lemma copy_schedule_Suc:
  "copy_schedule (Suc n) sp dp = (sp + int n, dp + int n) # copy_schedule n sp dp"
  by (simp add: copy_schedule_def)

lemma length_copy_schedule: "length (copy_schedule n sp dp) = n"
  by (simp add: copy_schedule_def)

lemma copyArrayElements_arr_loop:
  "copyArrayElements_arr h s sp d dp (int n) =
     Some (Inr (copy_all_arr h s d (copy_schedule n sp dp)))"
proof (induction n arbitrary: h)
  case 0
  show ?case by (subst copyArrayElements_arr.simps) (simp add: copy_schedule_0)
next
  case (Suc n)
  show ?case
    using Suc.IH [of "h(d := (h d)(dp + int n := h s (sp + int n)))"]
    by (subst copyArrayElements_arr.simps) (simp add: copy_schedule_Suc fun_upd_def)
qed

lemma copyArrayElements_dv_loop:
  "copyArrayElements_dv h s sp d dp (int n) =
     Some (copy_all_dv h s d (copy_schedule n sp dp))"
proof (induction n arbitrary: h)
  case 0
  show ?case by (subst copyArrayElements_dv.simps) (simp add: copy_schedule_0)
next
  case (Suc n)
  show ?case
  proof (cases "getInt8 (h s) (sp + int n)")
    case (Inl e)
    then show ?thesis
      by (subst copyArrayElements_dv.simps) (simp add: copy_schedule_Suc)
  next
    case (Inr x)
    note g = this
    show ?thesis
    proof (cases "setInt8 (h d) (dp + int n) x")
      case (Inl e)
      then show ?thesis using g
        by (subst copyArrayElements_dv.simps) (simp add: copy_schedule_Suc)
    next
      case (Inr b)
      then show ?thesis using g Suc.IH [of "h(d := b)"]
        by (subst copyArrayElements_dv.simps) (simp add: copy_schedule_Suc fun_upd_def)
    qed
  qed
qed

lemma copy_all_arr_memmove:
  "s \<noteq> d \<or> sp \<le> dp \<or> dp + int n \<le> sp \<Longrightarrow>
   copy_all_arr h s d (copy_schedule n sp dp) = memmove_arr h s sp d dp n"
proof (induction n arbitrary: h)
  case 0
  show ?case by (auto simp add: copy_schedule_0 memmove_arr_def fun_eq_iff)
next
  case (Suc n)
  let ?h = "h(d := (h d)(dp + int n := h s (sp + int n)))"
  have c: "s \<noteq> d \<or> sp \<le> dp \<or> dp + int n \<le> sp" using Suc.prems by auto
  have "copy_all_arr h s d (copy_schedule (Suc n) sp dp) = memmove_arr ?h s sp d dp n"
    using Suc.IH [OF c, of ?h] by (simp add: copy_schedule_Suc fun_upd_def)
  also have "\<dots> = memmove_arr h s sp d dp (Suc n)"
    using Suc.prems by (auto simp add: memmove_arr_def fun_eq_iff)
  finally show ?case .
qed

lemma copyArrayElements_arr_negative:
  assumes "len < 0"
  shows "copyArrayElements_arr h s sp d dp len = None"
proof -
  have "0 \<le> len" if "copyArrayElements_arr h s sp d dp len = Some y" for y
  proof (rule copyArrayElements_arr.raw_induct
      [where P = "\<lambda>h s sp d dp len y. 0 \<le> len", OF _ that])
    fix f :: "(ref \<Rightarrow> jsarray) \<Rightarrow> ref \<Rightarrow> int \<Rightarrow> ref \<Rightarrow> int \<Rightarrow> int \<Rightarrow> (js_error + (ref \<Rightarrow> jsarray)) option"
      and h src srcPos dest destPos len ha
    assume ih: "\<And>h src srcPos dest destPos len y.
        f h src srcPos dest destPos len = Some y \<Longrightarrow> 0 \<le> len"
      and st: "(if len \<noteq> 0
        then f (h(dest := (h dest)(destPos + (len - 1) := h src (srcPos + (len - 1)))))
               src srcPos dest destPos (len - 1)
        else Some (Inr h)) = Some ha"
    show "0 \<le> len"
    proof (cases "len = 0")
      case True
      then show ?thesis by simp
    next
      case False
      then have "f (h(dest := (h dest)(destPos + (len - 1) := h src (srcPos + (len - 1)))))
               src srcPos dest destPos (len - 1) = Some ha"
        using st by simp
      then have "0 \<le> len - 1" by (rule ih)
      then show ?thesis by simp
    qed
  qed
  then show ?thesis using assms by (cases "copyArrayElements_arr h s sp d dp len") auto
qed

lemma getInt8_error: "getInt8 dv i = Inl e \<Longrightarrow> e = RangeError"
  by (simp add: getInt8_def split: if_splits)

lemma setInt8_error: "setInt8 dv i x = Inl e \<Longrightarrow> e = RangeError"
  by (simp add: setInt8_def split: if_splits)

lemma copyArrayElements_dv_negative:
  assumes "len < 0"
  shows "copyArrayElements_dv h s sp d dp len = Some (Inl RangeError)"
  using assms
proof (induction "nat (sp + len)" arbitrary: len h)
  case 0
  then have "getInt8 (h s) (sp + (len - 1)) = Inl RangeError"
    by (simp add: getInt8_def)
  then show ?case using 0
    by (subst copyArrayElements_dv.simps) simp
next
  case (Suc m)
  have m: "m = nat (sp + (len - 1))" "len - 1 < 0" using Suc by auto
  show ?case
  proof (cases "getInt8 (h s) (sp + (len - 1))")
    case (Inl e)
    then show ?thesis using Suc.prems getInt8_error [OF Inl]
      by (subst copyArrayElements_dv.simps) simp
  next
    case (Inr x)
    show ?thesis
    proof (cases "setInt8 (h d) (dp + (len - 1)) x")
      case (Inl e)
      then show ?thesis using Suc.prems Inr setInt8_error [OF Inl]
        by (subst copyArrayElements_dv.simps) simp
    next
      case (Inr b)
      then show ?thesis using Suc.prems \<open>getInt8 (h s) (sp + (len - 1)) = Inr x\<close>
          Suc.hyps(1) [OF m, of "h(d := b)"]
        by (subst copyArrayElements_dv.simps) simp
    qed
  qed
qed

lemma memmove_block_length:
  "dp + n \<le> length l \<Longrightarrow> sp + n \<le> length l' \<Longrightarrow>
   length (take dp l @ take n (drop sp l') @ drop (dp + n) l) = length l"
  by simp

lemma memmove_block_nth:
  assumes "dp + n \<le> length l" "sp + n \<le> length l'" "i < length l"
  shows "(take dp l @ take n (drop sp l') @ drop (dp + n) l) ! i =
         (if dp \<le> i \<and> i < dp + n then l' ! (sp + (i - dp)) else l ! i)"
proof -
  have m: "length (take n (drop sp l')) = n" "length (take dp l) = dp"
    using assms by simp_all
  consider "i < dp" | "dp \<le> i" "i < dp + n" | "dp + n \<le> i" by linarith
  then show ?thesis
  proof cases
    case 1
    then have "(take dp l @ take n (drop sp l') @ drop (dp + n) l) ! i = take dp l ! i"
      by (simp only: nth_append m) simp
    then show ?thesis using 1 by simp
  next
    case 2
    then have "(take dp l @ take n (drop sp l') @ drop (dp + n) l) ! i =
      take n (drop sp l') ! (i - dp)"
      by (simp only: nth_append m) (use 2 in simp)
    also have "\<dots> = l' ! (sp + (i - dp))" using 2 assms by simp
    finally show ?thesis using 2 by simp
  next
    case 3
    then have "(take dp l @ take n (drop sp l') @ drop (dp + n) l) ! i =
      drop (dp + n) l ! (i - dp - n)"
      by (simp only: nth_append m) (use 3 in simp)
    also have "\<dots> = l ! i" using 3 assms by simp
    finally show ?thesis using 3 by simp
  qed
qed

lemma memmove_dv_step:
  assumes "sp + Suc n \<le> length (h s)" "dp + Suc n \<le> length (h d)"
    and "s \<noteq> d \<or> sp \<le> dp \<or> dp + Suc n \<le> sp"
  shows "memmove_dv (h(d := (h d)[dp + n := h s ! (sp + n)])) s sp d dp n =
         memmove_dv h s sp d dp (Suc n)"
proof -
  let ?l = "(h d)[dp + n := h s ! (sp + n)]"
  let ?h = "h(d := ?l)"
  have ls: "length (?h s) = length (h s)" by simp
  have b: "dp + n \<le> length ?l" "sp + n \<le> length (?h s)" using assms by auto
  have "take dp ?l @ take n (drop sp (?h s)) @ drop (dp + n) ?l =
        take dp (h d) @ take (Suc n) (drop sp (h s)) @ drop (dp + Suc n) (h d)"
  proof (rule nth_equalityI)
    show "length (take dp ?l @ take n (drop sp (?h s)) @ drop (dp + n) ?l) =
          length (take dp (h d) @ take (Suc n) (drop sp (h s)) @ drop (dp + Suc n) (h d))"
      using assms by (simp only: memmove_block_length [OF b] memmove_block_length [OF assms(2,1)])
        simp
  next
    fix i
    assume "i < length (take dp ?l @ take n (drop sp (?h s)) @ drop (dp + n) ?l)"
    then have i: "i < length (h d)" using memmove_block_length [OF b] by simp
    then have i': "i < length ?l" by simp
    have "(take dp ?l @ take n (drop sp (?h s)) @ drop (dp + n) ?l) ! i =
          (if dp \<le> i \<and> i < dp + n then ?h s ! (sp + (i - dp)) else ?l ! i)"
      by (rule memmove_block_nth [OF b i'])
    also have "\<dots> = (if dp \<le> i \<and> i < dp + Suc n then h s ! (sp + (i - dp)) else h d ! i)"
      using assms i by (auto simp add: nth_list_update)
    also have "\<dots> = (take dp (h d) @ take (Suc n) (drop sp (h s)) @ drop (dp + Suc n) (h d)) ! i"
      by (rule memmove_block_nth [OF assms(2,1) i, symmetric])
    finally show "(take dp ?l @ take n (drop sp (?h s)) @ drop (dp + n) ?l) ! i =
      (take dp (h d) @ take (Suc n) (drop sp (h s)) @ drop (dp + Suc n) (h d)) ! i" .
  qed
  then show ?thesis by (simp add: memmove_dv_def)
qed

lemma getInt8_in_range:
  "sp + n < length l \<Longrightarrow> getInt8 l (int sp + int n) = Inr (sint (l ! (sp + n)))"
  by (simp add: getInt8_def byteLength_def nat_add_distrib)

lemma setInt8_in_range:
  "dp + n < length l \<Longrightarrow> setInt8 l (int dp + int n) (sint w) = Inr (l[dp + n := w])"
  by (simp add: setInt8_def byteLength_def nat_add_distrib)

lemma copy_all_dv_memmove:
  "sp + n \<le> length (h s) \<Longrightarrow> dp + n \<le> length (h d) \<Longrightarrow>
   s \<noteq> d \<or> sp \<le> dp \<or> dp + n \<le> sp \<Longrightarrow>
   copy_all_dv h s d (copy_schedule n (int sp) (int dp)) = Inr (memmove_dv h s sp d dp n)"
proof (induction n arbitrary: h)
  case 0
  show ?case by (simp add: copy_schedule_0 memmove_dv_def)
next
  case (Suc n)
  let ?h = "h(d := (h d)[dp + n := h s ! (sp + n)])"
  have b: "sp + n < length (h s)" "dp + n < length (h d)" using Suc.prems by simp_all
  have c: "sp + n \<le> length (?h s)" "dp + n \<le> length (?h d)"
    "s \<noteq> d \<or> sp \<le> dp \<or> dp + n \<le> sp"
    using Suc.prems by auto
  have "copy_all_dv h s d (copy_schedule (Suc n) (int sp) (int dp)) =
        copy_all_dv ?h s d (copy_schedule n (int sp) (int dp))"
    by (simp add: copy_schedule_Suc getInt8_in_range [OF b(1)] setInt8_in_range [OF b(2)])
  also have "\<dots> = Inr (memmove_dv ?h s sp d dp n)"
    by (rule Suc.IH [OF c])
  also have "memmove_dv ?h s sp d dp n = memmove_dv h s sp d dp (Suc n)"
    using Suc.prems by (intro memmove_dv_step) auto
  finally show ?case .
qed

lemma copy_all_dv_error: "copy_all_dv h s d ps = Inl e \<Longrightarrow> e = RangeError"
proof (induction ps arbitrary: h)
  case Nil
  then show ?case by simp
next
  case (Cons p ps)
  obtain i j where p: "p = (i, j)" by (cases p)
  show ?case
  proof (cases "getInt8 (h s) i")
    case (Inl e')
    then show ?thesis using Cons.prems getInt8_error [OF Inl] by (simp add: p)
  next
    case (Inr x)
    note g = this
    show ?thesis
    proof (cases "setInt8 (h d) j x")
      case (Inl e')
      then show ?thesis using Cons.prems g setInt8_error [OF Inl] by (simp add: p)
    next
      case (Inr b)
      then show ?thesis using Cons.prems g Cons.IH [of "h(d := b)"] by (simp add: p fun_upd_def)
    qed
  qed
qed

lemma setInt8_length: "setInt8 l j x = Inr b \<Longrightarrow> length b = length l"
  by (auto simp add: setInt8_def split: if_splits)

lemma copy_all_dv_in_bounds:
  "0 \<le> sp \<Longrightarrow> sp + int n \<le> byteLength (h s) \<Longrightarrow> 0 \<le> dp \<Longrightarrow>
   dp + int n \<le> byteLength (h d) \<Longrightarrow>
   \<exists>h'. copy_all_dv h s d (copy_schedule n sp dp) = Inr h'"
proof (induction n arbitrary: h)
  case 0
  show ?case by (simp add: copy_schedule_0)
next
  case (Suc n)
  have g: "getInt8 (h s) (sp + int n) = Inr (sint (h s ! nat (sp + int n)))"
    using Suc.prems by (simp add: getInt8_def)
  obtain b where b: "setInt8 (h d) (dp + int n) (sint (h s ! nat (sp + int n))) = Inr b"
    using Suc.prems by (simp add: setInt8_def)
  let ?h = "h(d := b)"
  have l: "byteLength (?h r) = byteLength (h r)" for r
    using setInt8_length [OF b] by (simp add: byteLength_def)
  have c: "0 \<le> sp" "sp + int n \<le> byteLength (?h s)" "0 \<le> dp"
    "dp + int n \<le> byteLength (?h d)"
    using Suc.prems l [of s] l [of d] by simp_all
  have "\<exists>h'. copy_all_dv ?h s d (copy_schedule n sp dp) = Inr h'"
    by (rule Suc.IH [OF c])
  then show ?case using g b by (simp add: copy_schedule_Suc fun_upd_def)
qed

lemma copy_all_dv_Inr_bounds:
  "copy_all_dv h s d (copy_schedule n sp dp) = Inr h' \<Longrightarrow> 0 < n \<Longrightarrow>
   0 \<le> sp \<and> sp + int n \<le> byteLength (h s) \<and> 0 \<le> dp \<and> dp + int n \<le> byteLength (h d)"
proof (induction n arbitrary: h)
  case 0
  then show ?case by simp
next
  case (Suc n)
  from Suc.prems(1) obtain x where g: "getInt8 (h s) (sp + int n) = Inr x"
    by (cases "getInt8 (h s) (sp + int n)") (simp_all add: copy_schedule_Suc)
  from Suc.prems(1) g obtain b where b: "setInt8 (h d) (dp + int n) x = Inr b"
    by (cases "setInt8 (h d) (dp + int n) x") (simp_all add: copy_schedule_Suc)
  let ?h = "h(d := b)"
  have r: "copy_all_dv ?h s d (copy_schedule n sp dp) = Inr h'"
    using Suc.prems(1) g b by (simp add: copy_schedule_Suc)
  have l: "byteLength (?h r) = byteLength (h r)" for r
    using setInt8_length [OF b] by (simp add: byteLength_def)
  have top: "0 \<le> sp + int n" "sp + int n + 1 \<le> byteLength (h s)"
    "0 \<le> dp + int n" "dp + int n + 1 \<le> byteLength (h d)"
    using g b by (simp_all add: getInt8_def setInt8_def split: if_splits)
  show ?case
  proof (cases "n = 0")
    case True
    then show ?thesis using top by simp
  next
    case False
    then have "0 \<le> sp \<and> sp + int n \<le> byteLength (?h s) \<and> 0 \<le> dp \<and>
      dp + int n \<le> byteLength (?h d)"
      using Suc.IH [OF r] by simp
    then show ?thesis using top l [of s] l [of d] by simp
  qed
qed

lemma copyArrayElements_dv_nonneg:
  assumes "0 \<le> len"
  shows "copyArrayElements_dv h s sp d dp len =
     Some (copy_all_dv h s d (copy_schedule (nat len) sp dp))"
  using copyArrayElements_dv_loop [of h s sp d dp "nat len"] assms by simp

lemma copyArrayElements_arr_nonneg:
  assumes "0 \<le> len"
  shows "copyArrayElements_arr h s sp d dp len =
     Some (Inr (copy_all_arr h s d (copy_schedule (nat len) sp dp)))"
  using copyArrayElements_arr_loop [of h s sp d dp "nat len"] assms by simp

lemma copyArrayElements_dv_out_of_bounds:
  assumes "0 < len"
    and "\<not> (0 \<le> sp \<and> sp + len \<le> byteLength (h s) \<and> 0 \<le> dp \<and> dp + len \<le> byteLength (h d))"
  shows "copyArrayElements_dv h s sp d dp len = Some (Inl RangeError)"
proof (cases "copy_all_dv h s d (copy_schedule (nat len) sp dp)")
  case (Inl e)
  then show ?thesis using assms(1) copy_all_dv_error [OF Inl]
    by (simp add: copyArrayElements_dv_nonneg)
next
  case (Inr h')
  have "0 < nat len" using assms(1) by simp
  from copy_all_dv_Inr_bounds [OF Inr this] assms show ?thesis by simp
qed

lemma memmove_dv_range:
  assumes "sp + n \<le> length (h src)" "dp + n \<le> length (h dest)" "i < n"
  shows "memmove_dv h src sp dest dp n dest ! (dp + i) = h src ! (sp + i)"
proof -
  have "dp + i < length (h dest)" using assms by simp
  from memmove_block_nth [OF assms(2,1) this] assms(3) show ?thesis
    by (simp add: memmove_dv_def)
qed

text \<open>
  C6. For a count \<open>n \<ge> 0\<close> the loop makes the element copies \<open>dest[destPos + i] = src[srcPos + i]\<close>
  for \<open>i\<close> from \<open>n - 1\<close> down to 0, each on the store the previous one left. When the two
  ranges do not overlap (different blocks, or disjoint ranges of one block), and when they
  overlap in one block with \<open>destPos \<ge> srcPos\<close>, the outcome is that of \<^verbatim>\<open>memmove\<close>: the
  destination range holds what the source range held before the call, and nothing else has
  changed. For \<open>DataView\<close> blocks the ranges lie inside the views.
\<close>

theorem copyArrayElements_memmove:
  "copyArrayElements_dv h src srcPos dest destPos (int n) =
     Some (copy_all_dv h src dest (copy_schedule n srcPos destPos)) \<and>
   copyArrayElements_arr g src srcPos dest destPos (int n) =
     Some (Inr (copy_all_arr g src dest (copy_schedule n srcPos destPos))) \<and>
   (sp + n \<le> length (h src) \<and> dp + n \<le> length (h dest) \<and>
    (src \<noteq> dest \<or> sp + n \<le> dp \<or> dp + n \<le> sp) \<longrightarrow>
      copyArrayElements_dv h src (int sp) dest (int dp) (int n) =
        Some (Inr (memmove_dv h src sp dest dp n))) \<and>
   (sp + n \<le> length (h src) \<and> dp + n \<le> length (h src) \<and> sp \<le> dp \<and> dp < sp + n \<longrightarrow>
      copyArrayElements_dv h src (int sp) src (int dp) (int n) =
        Some (Inr (memmove_dv h src sp src dp n))) \<and>
   (src \<noteq> dest \<or> srcPos + int n \<le> destPos \<or> destPos + int n \<le> srcPos \<longrightarrow>
      copyArrayElements_arr g src srcPos dest destPos (int n) =
        Some (Inr (memmove_arr g src srcPos dest destPos n))) \<and>
   (srcPos \<le> destPos \<and> destPos < srcPos + int n \<longrightarrow>
      copyArrayElements_arr g src srcPos src destPos (int n) =
        Some (Inr (memmove_arr g src srcPos src destPos n))) \<and>
   (sp + n \<le> length (h src) \<and> dp + n \<le> length (h dest) \<and> i < n \<longrightarrow>
      memmove_dv h src sp dest dp n dest ! (dp + i) = h src ! (sp + i)) \<and>
   (i < n \<longrightarrow>
      memmove_arr g src srcPos dest destPos n dest (destPos + int i) = g src (srcPos + int i))"
proof (intro conjI impI; (elim conjE)?)
  show "copyArrayElements_dv h src srcPos dest destPos (int n) =
     Some (copy_all_dv h src dest (copy_schedule n srcPos destPos))"
    by (rule copyArrayElements_dv_loop)
next
  show "copyArrayElements_arr g src srcPos dest destPos (int n) =
     Some (Inr (copy_all_arr g src dest (copy_schedule n srcPos destPos)))"
    by (rule copyArrayElements_arr_loop)
next
  assume b: "sp + n \<le> length (h src)" "dp + n \<le> length (h dest)"
    and "src \<noteq> dest \<or> sp + n \<le> dp \<or> dp + n \<le> sp"
  then have "src \<noteq> dest \<or> sp \<le> dp \<or> dp + n \<le> sp" by auto
  from copy_all_dv_memmove [of sp n h src dp dest, OF b this]
  show "copyArrayElements_dv h src (int sp) dest (int dp) (int n) =
        Some (Inr (memmove_dv h src sp dest dp n))"
    by (simp add: copyArrayElements_dv_loop)
next
  assume b: "sp + n \<le> length (h src)" "dp + n \<le> length (h src)" and "sp \<le> dp"
  then have "src \<noteq> src \<or> sp \<le> dp \<or> dp + n \<le> sp" by simp
  from copy_all_dv_memmove [of sp n h src dp src, OF b this]
  show "copyArrayElements_dv h src (int sp) src (int dp) (int n) =
        Some (Inr (memmove_dv h src sp src dp n))"
    by (simp add: copyArrayElements_dv_loop)
next
  assume "src \<noteq> dest \<or> srcPos + int n \<le> destPos \<or> destPos + int n \<le> srcPos"
  then have "src \<noteq> dest \<or> srcPos \<le> destPos \<or> destPos + int n \<le> srcPos" by auto
  from copy_all_arr_memmove [of src dest srcPos destPos n g, OF this]
  show "copyArrayElements_arr g src srcPos dest destPos (int n) =
        Some (Inr (memmove_arr g src srcPos dest destPos n))"
    by (simp add: copyArrayElements_arr_loop)
next
  assume "srcPos \<le> destPos"
  then have "src \<noteq> src \<or> srcPos \<le> destPos \<or> destPos + int n \<le> srcPos" by simp
  from copy_all_arr_memmove [of src src srcPos destPos n g, OF this]
  show "copyArrayElements_arr g src srcPos src destPos (int n) =
        Some (Inr (memmove_arr g src srcPos src destPos n))"
    by (simp add: copyArrayElements_arr_loop)
next
  assume "sp + n \<le> length (h src)" "dp + n \<le> length (h dest)" "i < n"
  then show "memmove_dv h src sp dest dp n dest ! (dp + i) = h src ! (sp + i)"
    by (rule memmove_dv_range)
next
  assume "i < n"
  then show "memmove_arr g src srcPos dest destPos n dest (destPos + int i) = g src (srcPos + int i)"
    by (simp add: memmove_arr_def)
qed

theorem copyArrayElements_memmove_witness:
  "copyArrayElements_dv digits_dv 0 0 0 1 3 = Some (Inr (digits_dv(0 := [1, 1, 2, 3, 5]))) \<and>
   copyArrayElements_dv digits_dv 0 2 1 0 3 = Some (Inr (digits_dv(1 := [3, 4, 5, 4, 5]))) \<and>
   (\<exists>g'. copyArrayElements_arr digits_arr 0 0 0 1 3 = Some (Inr g') \<and>
      map (g' 0) [0, 1, 2, 3, 4] = [Some 1, Some 1, Some 2, Some 3, Some 5]) \<and>
   (\<exists>g'. copyArrayElements_arr digits_arr 0 2 1 0 3 = Some (Inr g') \<and>
      map (g' 1) [0, 1, 2, 3, 4] = [Some 3, Some 4, Some 5, Some 4, Some 5])"
proof -
  note t1 = copyArrayElements_memmove [of digits_dv 0 0 0 1 3 digits_arr 0 1 0]
  note t2 = copyArrayElements_memmove [of digits_dv 0 2 1 0 3 digits_arr 2 0 0]
  have "copyArrayElements_dv digits_dv 0 0 0 1 3 = Some (Inr (digits_dv(0 := [1, 1, 2, 3, 5])))"
    using t1 [THEN conjunct2, THEN conjunct2, THEN conjunct2, THEN conjunct1]
    by (simp add: memmove_dv_def digits_dv_def)
  moreover have "copyArrayElements_dv digits_dv 0 2 1 0 3 = Some (Inr (digits_dv(1 := [3, 4, 5, 4, 5])))"
    using t2 [THEN conjunct2, THEN conjunct2, THEN conjunct1]
    by (simp add: memmove_dv_def digits_dv_def)
  moreover have "\<exists>g'. copyArrayElements_arr digits_arr 0 0 0 1 3 = Some (Inr g') \<and>
      map (g' 0) [0, 1, 2, 3, 4] = [Some 1, Some 1, Some 2, Some 3, Some 5]"
    using t1 [THEN conjunct2, THEN conjunct2, THEN conjunct2, THEN conjunct2, THEN conjunct2,
        THEN conjunct1]
    by (simp add: memmove_arr_def digits_arr_def)
  moreover have "\<exists>g'. copyArrayElements_arr digits_arr 0 2 1 0 3 = Some (Inr g') \<and>
      map (g' 1) [0, 1, 2, 3, 4] = [Some 3, Some 4, Some 5, Some 4, Some 5]"
    using t2 [THEN conjunct2, THEN conjunct2, THEN conjunct2, THEN conjunct2, THEN conjunct1]
    by (simp add: memmove_arr_def digits_arr_def)
  ultimately show ?thesis by simp
qed

text \<open>
  C9, as stated, fails for \<open>DataView\<close> blocks. A count of 2 from position 4 of a five-byte
  view ends with a \<^verbatim>\<open>RangeError\<close> at the first element, before any copy is made; and a
  negative count does not loop for ever there, it ends with a \<^verbatim>\<open>RangeError\<close> as well.
\<close>

theorem copyArrayElements_terminates_counterexample:
  "copyArrayElements_dv digits_dv 0 4 0 0 2 = Some (Inl RangeError) \<and>
   copyArrayElements_dv digits_dv 0 0 0 0 (- 1) = Some (Inl RangeError)"
proof -
  have "copyArrayElements_dv digits_dv 0 4 0 0 2 = Some (Inl RangeError)"
    by (rule copyArrayElements_dv_out_of_bounds) (simp_all add: digits_dv_def byteLength_def)
  moreover have "copyArrayElements_dv digits_dv 0 0 0 0 (- 1) = Some (Inl RangeError)"
    by (rule copyArrayElements_dv_negative) simp
  ultimately show ?thesis by simp
qed

text \<open>
  C9, amended. On plain arrays the call returns for every count \<open>len \<ge> 0\<close>, after the
  \<open>len\<close> element copies of the schedule (none for \<open>len = 0\<close>, which leaves the store as it
  is), and never returns for \<open>len < 0\<close>. On \<open>DataView\<close> blocks it returns, after the same
  \<open>len\<close> copies, when \<open>len \<ge> 0\<close> and both ranges lie inside the views; a positive count
  with a range outside a view, and every negative count, end with a \<^verbatim>\<open>RangeError\<close>.
\<close>

theorem copyArrayElements_termination:
  "(0 \<le> len \<longrightarrow>
      copyArrayElements_arr g src srcPos dest destPos len =
        Some (Inr (copy_all_arr g src dest (copy_schedule (nat len) srcPos destPos))) \<and>
      length (copy_schedule (nat len) srcPos destPos) = nat len) \<and>
   (len < 0 \<longrightarrow> copyArrayElements_arr g src srcPos dest destPos len = None) \<and>
   copyArrayElements_arr g src srcPos dest destPos 0 = Some (Inr g) \<and>
   (0 \<le> len \<and> 0 \<le> srcPos \<and> srcPos + len \<le> byteLength (h src) \<and>
    0 \<le> destPos \<and> destPos + len \<le> byteLength (h dest) \<longrightarrow>
      (\<exists>h'. copyArrayElements_dv h src srcPos dest destPos len = Some (Inr h') \<and>
         copy_all_dv h src dest (copy_schedule (nat len) srcPos destPos) = Inr h')) \<and>
   (0 < len \<and>
    \<not> (0 \<le> srcPos \<and> srcPos + len \<le> byteLength (h src) \<and>
       0 \<le> destPos \<and> destPos + len \<le> byteLength (h dest)) \<longrightarrow>
      copyArrayElements_dv h src srcPos dest destPos len = Some (Inl RangeError)) \<and>
   (len < 0 \<longrightarrow> copyArrayElements_dv h src srcPos dest destPos len = Some (Inl RangeError)) \<and>
   copyArrayElements_dv h src srcPos dest destPos 0 = Some (Inr h)"
proof (intro conjI impI; (elim conjE)?)
  assume "0 \<le> len"
  then show "copyArrayElements_arr g src srcPos dest destPos len =
        Some (Inr (copy_all_arr g src dest (copy_schedule (nat len) srcPos destPos)))"
    by (rule copyArrayElements_arr_nonneg)
next
  show "length (copy_schedule (nat len) srcPos destPos) = nat len"
    by (rule length_copy_schedule)
next
  assume "len < 0"
  then show "copyArrayElements_arr g src srcPos dest destPos len = None"
    by (rule copyArrayElements_arr_negative)
next
  show "copyArrayElements_arr g src srcPos dest destPos 0 = Some (Inr g)"
    by (subst copyArrayElements_arr.simps) simp
next
  assume l: "0 \<le> len" and b: "0 \<le> srcPos" "srcPos + len \<le> byteLength (h src)"
    "0 \<le> destPos" "destPos + len \<le> byteLength (h dest)"
  have "\<exists>h'. copy_all_dv h src dest (copy_schedule (nat len) srcPos destPos) = Inr h'"
    using l b by (intro copy_all_dv_in_bounds) simp_all
  then show "\<exists>h'. copyArrayElements_dv h src srcPos dest destPos len = Some (Inr h') \<and>
         copy_all_dv h src dest (copy_schedule (nat len) srcPos destPos) = Inr h'"
    using l by (simp add: copyArrayElements_dv_nonneg)
next
  assume "0 < len"
    "\<not> (0 \<le> srcPos \<and> srcPos + len \<le> byteLength (h src) \<and>
       0 \<le> destPos \<and> destPos + len \<le> byteLength (h dest))"
  then show "copyArrayElements_dv h src srcPos dest destPos len = Some (Inl RangeError)"
    by (rule copyArrayElements_dv_out_of_bounds)
next
  assume "len < 0"
  then show "copyArrayElements_dv h src srcPos dest destPos len = Some (Inl RangeError)"
    by (rule copyArrayElements_dv_negative)
next
  show "copyArrayElements_dv h src srcPos dest destPos 0 = Some (Inr h)"
    by (subst copyArrayElements_dv.simps) simp
qed

theorem copyArrayElements_termination_witness:
  "(\<exists>g'. copyArrayElements_arr digits_arr 0 3 1 7 2 = Some (Inr g') \<and>
      g' 1 7 = Some 4 \<and> g' 1 8 = Some 5) \<and>
   copyArrayElements_arr digits_arr 0 3 1 7 (- 2) = None \<and>
   (\<exists>h'. copyArrayElements_dv digits_dv 0 3 1 0 2 = Some (Inr h')) \<and>
   copyArrayElements_dv digits_dv 0 3 1 7 2 = Some (Inl RangeError) \<and>
   copyArrayElements_dv digits_dv 0 3 1 0 (- 2) = Some (Inl RangeError)"
proof -
  note t1 = copyArrayElements_termination [of 2 digits_arr 0 3 1 7 digits_dv]
  note t2 = copyArrayElements_termination [of "- 2" digits_arr 0 3 1 7 digits_dv]
  note t3 = copyArrayElements_termination [of 2 digits_arr 0 3 1 0 digits_dv]
  note t4 = copyArrayElements_termination [of "- 2" digits_arr 0 3 1 0 digits_dv]
  have s: "copy_schedule 2 3 7 = [(4, 8), (3, 7)]"
    by (simp add: numeral_2_eq_2 copy_schedule_Suc copy_schedule_0)
  have "\<exists>g'. copyArrayElements_arr digits_arr 0 3 1 7 2 = Some (Inr g') \<and>
      g' 1 7 = Some 4 \<and> g' 1 8 = Some 5"
    using t1 [THEN conjunct1] by (simp add: s digits_arr_def)
  moreover have "copyArrayElements_arr digits_arr 0 3 1 7 (- 2) = None"
    using t2 [THEN conjunct2, THEN conjunct1] by simp
  moreover have "\<exists>h'. copyArrayElements_dv digits_dv 0 3 1 0 2 = Some (Inr h')"
    using t3 [THEN conjunct2, THEN conjunct2, THEN conjunct2, THEN conjunct1]
    by (auto simp add: digits_dv_def byteLength_def)
  moreover have "copyArrayElements_dv digits_dv 0 3 1 7 2 = Some (Inl RangeError)"
    using t1 [THEN conjunct2, THEN conjunct2, THEN conjunct2, THEN conjunct2, THEN conjunct1]
    by (simp add: digits_dv_def byteLength_def)
  moreover have "copyArrayElements_dv digits_dv 0 3 1 0 (- 2) = Some (Inl RangeError)"
    using t4 [THEN conjunct2, THEN conjunct2, THEN conjunct2, THEN conjunct2, THEN conjunct2,
        THEN conjunct1] by simp
  ultimately show ?thesis by simp
qed

section \<open>The two storage strategies\<close>

lemma js_byte_word: "js_and (ToInt32v (Some v)) 0xFF = uint (word_of_int v :: 8 word)"
proof -
  have "ToInt32 (ToInt32 v) AND 255 = take_bit 8 (ToInt32 (ToInt32 v))"
    by (simp add: take_bit_eq_mask mask_eq_exp_minus_1)
  also have "\<dots> = take_bit 8 v"
    by (simp add: ToInt32_def take_bit_signed_take_bit)
  finally have "ToInt32 (ToInt32 v) AND 255 = take_bit 8 v" .
  moreover have "ToInt32 255 = 255" by (simp add: ToInt32_def)
  ultimately show ?thesis
    by (simp add: js_and_def ToInt32v_def uint_word_of_int_eq)
qed

lemma same_contents_readMem:
  assumes "same_contents d a" and "snd (readMem_dv D d x) = Inr w"
  shows "snd (readMem_arr a x) = Inr w"
proof -
  from assms(2) obtain r where r: "lookup (memReadMap d) (js_sar x 10) = Some r"
    by (cases "lookup (memReadMap d) (js_sar x 10)") (simp_all add: readMem_dv_def)
  with assms(2) have g: "getUint8 (heap d r) (js_and x 0x3FF) = Inr w"
    by (simp add: readMem_dv_def)
  then have b: "0 \<le> js_and x 0x3FF" "nat (js_and x 0x3FF) < length (heap d r)"
    and w: "w = uint (heap d r ! nat (js_and x 0x3FF))"
    by (auto simp add: getUint8_def byteLength_def split: if_splits)
  have "js_and (ToInt32v (heap a r (int (nat (js_and x 0x3FF))))) 0xFF =
        uint (heap d r ! nat (js_and x 0x3FF))"
    using assms(1) b(2) unfolding same_contents_def by blast
  moreover have "lookup (memReadMap a) (js_sar x 10) = Some r"
    using assms(1) r by (simp add: same_contents_def)
  ultimately show ?thesis using b(1) w by (simp add: readMem_arr_def)
qed

lemma compose_word_Inr:
  "compose_word lo hi = Inr w \<Longrightarrow> \<exists>l h. lo = Inr l \<and> hi = Inr h"
  by (cases lo; cases hi) (simp_all add: compose_word_def)

lemma same_contents_readMemWord:
  assumes "same_contents d a" and "0 \<le> x" "x \<le> 0xFFFF"
    and "snd (readMemWord_dv D True d x) = Inr w"
  shows "snd (readMemWord_arr a x) = Inr w"
proof -
  have c: "compose_word (snd (readMem_dv D d x)) (snd (readMem_dv D d (x + 1))) = Inr w"
    using assms(4) readMemWord_dv_two_reads [OF assms(2,3), of D d] by simp
  then obtain l h where lh: "snd (readMem_dv D d x) = Inr l" "snd (readMem_dv D d (x + 1)) = Inr h"
    using compose_word_Inr by blast
  have "snd (readMem_arr a x) = Inr l" "snd (readMem_arr a (x + 1)) = Inr h"
    using same_contents_readMem [OF assms(1)] lh by blast+
  then show ?thesis using c lh by (simp add: readMemWord_arr_two_reads)
qed

lemma same_contents_store:
  assumes "same_contents d a" and "0 \<le> off" "nat off < length (heap d r)"
  shows "same_contents
     (d\<lparr>heap := (heap d)(r := (heap d r)[nat off := word_of_int v])\<rparr>)
     (a\<lparr>heap := (heap a)(r := (heap a r)(off := Some v))\<rparr>)"
  unfolding same_contents_def
proof (intro conjI allI impI)
  fix q i
  assume i: "i < length (heap (d\<lparr>heap := (heap d)(r := (heap d r)[nat off := word_of_int v])\<rparr>) q)"
  have old: "js_and (ToInt32v (heap a q (int i))) 0xFF = uint (heap d q ! i)"
    if "i < length (heap d q)"
    using assms(1) that unfolding same_contents_def by blast
  show "js_and (ToInt32v (heap (a\<lparr>heap := (heap a)(r := (heap a r)(off := Some v))\<rparr>) q (int i))) 0xFF =
        uint (heap (d\<lparr>heap := (heap d)(r := (heap d r)[nat off := word_of_int v])\<rparr>) q ! i)"
  proof (cases "q = r")
    case False
    then show ?thesis using i old by simp
  next
    case True
    show ?thesis
    proof (cases "int i = off")
      case True
      then have "i = nat off" by simp
      then show ?thesis using \<open>q = r\<close> True assms(3) by (simp add: js_byte_word)
    next
      case False
      then have "i \<noteq> nat off" using assms(2) by auto
      then show ?thesis using \<open>q = r\<close> False i old by simp
    qed
  qed
qed (use assms(1) in \<open>simp_all add: same_contents_def\<close>)

lemma same_contents_writeMem:
  assumes s: "same_contents d a"
    and p: "\<forall>k v d a. same_contents d a \<longrightarrow> same_contents (page k v d) (page' k v a)"
    and w: "snd (writeMem_dv D page d x v) = Inr d'"
  shows "\<exists>a'. snd (writeMem_arr page' a x v) = Inr a' \<and> same_contents d' a'"
proof -
  from w obtain r where r: "lookup (memWriteMap d) (js_sar x 10) = Some r"
    by (cases "lookup (memWriteMap d) (js_sar x 10)") (simp_all add: writeMem_dv_def Let_def)
  have b: "js_and x 0x3FF < byteLength (heap d r)"
  proof (rule ccontr)
    assume "\<not> js_and x 0x3FF < byteLength (heap d r)"
    then have "lookup (memWriteMap d) (js_sar x 10) = None \<or>
      (\<exists>r. lookup (memWriteMap d) (js_sar x 10) = Some r \<and> byteLength (heap d r) \<le> js_and x 0x3FF)"
      using r by simp
    from writeMem_dv_thrown [OF this] w show False by simp
  qed
  let ?d = "d\<lparr>heap := (heap d)(r := (heap d r)[nat (js_and x 0x3FF) := word_of_int v])\<rparr>"
  let ?a = "a\<lparr>heap := (heap a)(r := (heap a r)(js_and x 0x3FF := Some v))\<rparr>"
  have st: "same_contents ?d ?a"
    using s js_and_nonneg [of x] b by (intro same_contents_store) (simp_all add: byteLength_def)
  have ra: "lookup (memWriteMap a) (js_sar x 10) = Some r"
    using s r by (simp add: same_contents_def)
  have d': "d' = (if 0xFFFC \<le> x then page (js_and x 3) v ?d else ?d)"
    using w by (simp add: writeMem_dv_stored [OF r b] Let_def split: if_splits)
  have "snd (writeMem_arr page' a x v) = Inr (if 0xFFFC \<le> x then page' (js_and x 3) v ?a else ?a)"
    by (simp add: writeMem_arr_stored [OF ra] Let_def)
  moreover have "same_contents d' (if 0xFFFC \<le> x then page' (js_and x 3) v ?a else ?a)"
    using st p by (simp add: d')
  ultimately show ?thesis by blast
qed

lemma same_contents_writeMems:
  assumes p: "\<forall>k v d a. same_contents d a \<longrightarrow> same_contents (page k v d) (page' k v a)"
  shows "same_contents d a \<Longrightarrow> writeMems_dv D page d ws = Inr d' \<Longrightarrow>
         \<exists>a'. writeMems_arr page' a ws = Inr a' \<and> same_contents d' a'"
proof (induction ws arbitrary: d a)
  case Nil
  then show ?case by simp
next
  case (Cons y ws)
  obtain x v where y: "y = (x, v)" by (cases y)
  from Cons.prems(2) obtain d1 where d1: "snd (writeMem_dv D page d x v) = Inr d1"
    and rest: "writeMems_dv D page d1 ws = Inr d'"
    by (cases "snd (writeMem_dv D page d x v)") (simp_all add: y)
  from same_contents_writeMem [OF Cons.prems(1) p d1]
  obtain a1 where a1: "snd (writeMem_arr page' a x v) = Inr a1" "same_contents d1 a1"
    by blast
  from Cons.IH [OF a1(2) rest] a1(1) show ?case by (simp add: y)
qed

lemma mappedE:
  assumes "mapped m h x"
  obtains r where "lookup m (js_sar x 10) = Some r" "js_and x 0x3FF < byteLength (h r)"
  using assms by (auto simp add: mapped_def split: option.splits)

lemma mapped_store:
  "mapped m (h(r := (h r)[i := w])) y = mapped m h y"
  by (simp add: mapped_def byteLength_def split: option.split)

lemma mapped_readMem:
  fixes d :: "(dataview, 'x) cpu_scheme" and a :: "(jsarray, 'y) cpu_scheme"
  assumes "same_contents d a" and "mapped (memReadMap d) (heap d) x"
  shows "\<exists>w. snd (readMem_dv D d x) = Inr w \<and> snd (readMem_arr a x) = Inr w"
proof -
  from assms(2) obtain r where r: "lookup (memReadMap d) (js_sar x 10) = Some r"
    "js_and x 0x3FF < byteLength (heap d r)" by (rule mappedE)
  have "snd (readMem_dv D d x) = Inr (uint (heap d r ! nat (js_and x 0x3FF)))"
    using r by (rule readMem_dv_byte)
  then show ?thesis using same_contents_readMem [OF assms(1)] by blast
qed

lemma mapped_readMemWord:
  fixes d :: "(dataview, 'x) cpu_scheme" and a :: "(jsarray, 'y) cpu_scheme"
  assumes "same_contents d a" and "0 \<le> x" "x \<le> 0xFFFF"
    and "mapped (memReadMap d) (heap d) x" "mapped (memReadMap d) (heap d) (x + 1)"
  shows "\<exists>w. snd (readMemWord_dv D True d x) = Inr w \<and> snd (readMemWord_arr a x) = Inr w"
proof -
  obtain l where l: "snd (readMem_dv D d x) = Inr l"
    using mapped_readMem [OF assms(1,4)] by blast
  obtain h where h: "snd (readMem_dv D d (x + 1)) = Inr h"
    using mapped_readMem [OF assms(1,5)] by blast
  have "snd (readMemWord_dv D True d x) = Inr (js_or l (js_shl h 8))"
    using readMemWord_dv_two_reads [OF assms(2,3), of D d] l h by (simp add: compose_word_def)
  then show ?thesis using same_contents_readMemWord [OF assms(1,2,3)] by blast
qed

lemma mapped_writeMem:
  fixes d :: "(dataview, 'x) cpu_scheme" and a :: "(jsarray, 'y) cpu_scheme"
  assumes s: "same_contents d a"
    and p: "\<forall>k v s t. same_contents s t \<longrightarrow> same_contents (page k v s) (page' k v t)"
    and m: "mapped (memWriteMap d) (heap d) x"
    and that: "lookup (memWriteMap d) (js_sar x 10) = Some js_r"
  shows "\<exists>d' a'. writeMem_dv D page d x v = (fst (writeMem_arr page' a x v), Inr d') \<and>
           snd (writeMem_arr page' a x v) = Inr a' \<and> same_contents d' a' \<and>
           d' = (if 0xFFFC \<le> x
                 then page (js_and x 3) v
                   (d\<lparr>heap := (heap d)(js_r := (heap d js_r)[nat (js_and x 0x3FF) := word_of_int v])\<rparr>)
                 else d\<lparr>heap := (heap d)(js_r := (heap d js_r)[nat (js_and x 0x3FF) := word_of_int v])\<rparr>)"
proof -
  from m that have b: "js_and x 0x3FF < byteLength (heap d js_r)"
    by (simp add: mapped_def)
  have ra: "lookup (memWriteMap a) (js_sar x 10) = Some js_r"
    using s that by (simp add: same_contents_def)
  let ?d = "d\<lparr>heap := (heap d)(js_r := (heap d js_r)[nat (js_and x 0x3FF) := word_of_int v])\<rparr>"
  let ?d' = "if 0xFFFC \<le> x then page (js_and x 3) v ?d else ?d"
  have w: "writeMem_dv D page d x v =
      (if 0xFFFC \<le> x then [PageCall (js_and x 3) v] else [], Inr ?d')"
    by (simp add: writeMem_dv_stored [OF that b] Let_def)
  have f: "fst (writeMem_arr page' a x v) = (if 0xFFFC \<le> x then [PageCall (js_and x 3) v] else [])"
    by (simp add: writeMem_arr_stored [OF ra] Let_def)
  from w have "snd (writeMem_dv D page d x v) = Inr ?d'" by simp
  from same_contents_writeMem [OF s p this]
  obtain a' where "snd (writeMem_arr page' a x v) = Inr a'" "same_contents ?d' a'" by blast
  then show ?thesis using w f by auto
qed

lemma mapped_writeMem_step:
  fixes d :: "(dataview, 'x) cpu_scheme" and a :: "(jsarray, 'y) cpu_scheme"
  assumes s: "same_contents d a"
    and p: "\<forall>k v s t. same_contents s t \<longrightarrow> same_contents (page k v s) (page' k v t)"
    and m: "mapped (memWriteMap d) (heap d) x"
  shows "\<exists>d' a'. snd (writeMem_dv D page d x v) = Inr d' \<and>
           snd (writeMem_arr page' a x v) = Inr a' \<and> same_contents d' a' \<and>
           fst (writeMem_dv D page d x v) = fst (writeMem_arr page' a x v)"
proof -
  from m obtain r where r: "lookup (memWriteMap d) (js_sar x 10) = Some r"
    by (rule mappedE)
  from mapped_writeMem [OF s p m r, of D v] show ?thesis by auto
qed

lemma mapped_after_writeMem:
  fixes d :: "(dataview, 'x) cpu_scheme"
  assumes k: "\<forall>k v s y. mapped (memWriteMap s) (heap s) y \<longrightarrow>
      mapped (memWriteMap (page k v s)) (heap (page k v s)) y"
    and m: "mapped (memWriteMap d) (heap d) x" and y: "mapped (memWriteMap d) (heap d) y"
    and w: "snd (writeMem_dv D page d x v) = Inr d'"
  shows "mapped (memWriteMap d') (heap d') y"
proof -
  from m obtain r where r: "lookup (memWriteMap d) (js_sar x 10) = Some r"
    "js_and x 0x3FF < byteLength (heap d r)" by (rule mappedE)
  let ?d = "d\<lparr>heap := (heap d)(r := (heap d r)[nat (js_and x 0x3FF) := word_of_int v])\<rparr>"
  have st: "mapped (memWriteMap ?d) (heap ?d) y"
    using y by (simp add: mapped_store)
  have "d' = (if 0xFFFC \<le> x then page (js_and x 3) v ?d else ?d)"
    using w by (simp add: writeMem_dv_stored [OF r] Let_def split: if_splits)
  then show ?thesis using st k by (simp split: if_splits)
qed

lemma mapped_writeMems:
  fixes d :: "(dataview, 'x) cpu_scheme" and a :: "(jsarray, 'y) cpu_scheme"
  assumes p: "\<forall>k v s t. same_contents s t \<longrightarrow> same_contents (page k v s) (page' k v t)"
    and k: "\<forall>k v s y. mapped (memWriteMap s) (heap s) y \<longrightarrow>
      mapped (memWriteMap (page k v s)) (heap (page k v s)) y"
  shows "same_contents d a \<Longrightarrow> \<forall>(x, v) \<in> set ws. mapped (memWriteMap d) (heap d) x \<Longrightarrow>
         \<exists>d' a'. writeMems_dv D page d ws = Inr d' \<and> writeMems_arr page' a ws = Inr a' \<and>
           same_contents d' a'"
proof (induction ws arbitrary: d a)
  case Nil
  then show ?case by simp
next
  case (Cons y ws)
  obtain x v where y: "y = (x, v)" by (cases y)
  have m: "mapped (memWriteMap d) (heap d) x" using Cons.prems(2) by (simp add: y)
  from mapped_writeMem_step [OF Cons.prems(1) p m, of D v]
  obtain d1 a1 where s1: "snd (writeMem_dv D page d x v) = Inr d1"
    "snd (writeMem_arr page' a x v) = Inr a1" "same_contents d1 a1" by blast
  have "\<forall>(x', v') \<in> set ws. mapped (memWriteMap d1) (heap d1) x'"
  proof (clarify)
    fix x' v'
    assume "(x', v') \<in> set ws"
    then have "mapped (memWriteMap d) (heap d) x'" using Cons.prems(2) by auto
    from mapped_after_writeMem [OF k m this s1(1)]
    show "mapped (memWriteMap d1) (heap d1) x'" .
  qed
  from Cons.IH [OF s1(3) this] s1(1,2) show ?case by (simp add: y)
qed

text \<open>
  C4. On identical memory contents the two strategies give identical results on the mapped
  domain. Every \<open>readMem\<close> at a mapped address returns a value, the same one under both
  strategies; so does every \<open>readMemWord\<close> on the 16-bit domain whose two bytes are mapped.
  Every \<open>writeMem\<close> at a mapped address completes under both strategies, with the same
  call of \<open>page\<close>, and leaves identical contents; so does every sequence of writes at
  mapped addresses, after which the reads agree again. Finally, whatever the addresses,
  a sequence of writes that the \<open>DataView\<close> accessors complete is completed by the array
  accessors too, and each read that then yields a value on the \<open>DataView\<close> side yields the
  same value on the array side. The handlers \<open>page\<close> of the two sides are taken to preserve
  identical contents (and, for sequences, the mapped domain of the write map), and
  \<open>LITTLE_ENDIAN\<close> is true.
\<close>

theorem strategies_agree:
  fixes d :: "(dataview, 'x) cpu_scheme" and a :: "(jsarray, 'y) cpu_scheme"
  assumes "same_contents d a"
    and "\<forall>k v s t. same_contents s t \<longrightarrow> same_contents (page k v s) (page' k v t)"
  shows
  "(\<forall>x. mapped (memReadMap d) (heap d) x \<longrightarrow>
      (\<exists>w. snd (readMem_dv DEBUG d x) = Inr w \<and> snd (readMem_arr a x) = Inr w)) \<and>
   (\<forall>x. 0 \<le> x \<and> x \<le> 0xFFFF \<and> mapped (memReadMap d) (heap d) x \<and>
        mapped (memReadMap d) (heap d) (x + 1) \<longrightarrow>
      (\<exists>w. snd (readMemWord_dv DEBUG True d x) = Inr w \<and> snd (readMemWord_arr a x) = Inr w)) \<and>
   (\<forall>x v. mapped (memWriteMap d) (heap d) x \<longrightarrow>
      (\<exists>d' a'. snd (writeMem_dv DEBUG page d x v) = Inr d' \<and>
         snd (writeMem_arr page' a x v) = Inr a' \<and> same_contents d' a' \<and>
         fst (writeMem_dv DEBUG page d x v) = fst (writeMem_arr page' a x v))) \<and>
   ((\<forall>k v s y. mapped (memWriteMap s) (heap s) y \<longrightarrow>
        mapped (memWriteMap (page k v s)) (heap (page k v s)) y) \<and>
    (\<forall>(x, v) \<in> set ws. mapped (memWriteMap d) (heap d) x) \<longrightarrow>
      (\<exists>d' a'. writeMems_dv DEBUG page d ws = Inr d' \<and> writeMems_arr page' a ws = Inr a' \<and>
         same_contents d' a' \<and>
         (\<forall>x. mapped (memReadMap d') (heap d') x \<longrightarrow>
            (\<exists>w. snd (readMem_dv DEBUG d' x) = Inr w \<and> snd (readMem_arr a' x) = Inr w)) \<and>
         (\<forall>x. 0 \<le> x \<and> x \<le> 0xFFFF \<and> mapped (memReadMap d') (heap d') x \<and>
              mapped (memReadMap d') (heap d') (x + 1) \<longrightarrow>
            (\<exists>w. snd (readMemWord_dv DEBUG True d' x) = Inr w \<and>
                 snd (readMemWord_arr a' x) = Inr w)))) \<and>
   (\<forall>d'. writeMems_dv DEBUG page d ws = Inr d' \<longrightarrow>
      (\<exists>a'. writeMems_arr page' a ws = Inr a' \<and> same_contents d' a' \<and>
         (\<forall>x w. snd (readMem_dv DEBUG d' x) = Inr w \<longrightarrow> snd (readMem_arr a' x) = Inr w) \<and>
         (\<forall>x w. 0 \<le> x \<and> x \<le> 0xFFFF \<and> snd (readMemWord_dv DEBUG True d' x) = Inr w \<longrightarrow>
            snd (readMemWord_arr a' x) = Inr w)))"
proof (intro conjI allI impI; (elim conjE)?)
  fix x
  assume "mapped (memReadMap d) (heap d) x"
  with assms(1) show "\<exists>w. snd (readMem_dv DEBUG d x) = Inr w \<and> snd (readMem_arr a x) = Inr w"
    by (rule mapped_readMem)
next
  fix x
  assume "0 \<le> x" "x \<le> 0xFFFF" "mapped (memReadMap d) (heap d) x"
    "mapped (memReadMap d) (heap d) (x + 1)"
  with assms(1)
  show "\<exists>w. snd (readMemWord_dv DEBUG True d x) = Inr w \<and> snd (readMemWord_arr a x) = Inr w"
    by (rule mapped_readMemWord)
next
  fix x v
  assume "mapped (memWriteMap d) (heap d) x"
  with assms show "\<exists>d' a'. snd (writeMem_dv DEBUG page d x v) = Inr d' \<and>
         snd (writeMem_arr page' a x v) = Inr a' \<and> same_contents d' a' \<and>
         fst (writeMem_dv DEBUG page d x v) = fst (writeMem_arr page' a x v)"
    by (rule mapped_writeMem_step)
next
  assume k: "\<forall>k v s y. mapped (memWriteMap s) (heap s) y \<longrightarrow>
        mapped (memWriteMap (page k v s)) (heap (page k v s)) y"
    and m: "\<forall>(x, v) \<in> set ws. mapped (memWriteMap d) (heap d) x"
  from mapped_writeMems [OF assms(2) k assms(1) m, of DEBUG]
  obtain d' a' where r: "writeMems_dv DEBUG page d ws = Inr d'"
    "writeMems_arr page' a ws = Inr a'" "same_contents d' a'" by blast
  have "\<forall>x. mapped (memReadMap d') (heap d') x \<longrightarrow>
            (\<exists>w. snd (readMem_dv DEBUG d' x) = Inr w \<and> snd (readMem_arr a' x) = Inr w)"
    using mapped_readMem [OF r(3)] by blast
  moreover have "\<forall>x. 0 \<le> x \<and> x \<le> 0xFFFF \<and> mapped (memReadMap d') (heap d') x \<and>
              mapped (memReadMap d') (heap d') (x + 1) \<longrightarrow>
            (\<exists>w. snd (readMemWord_dv DEBUG True d' x) = Inr w \<and>
                 snd (readMemWord_arr a' x) = Inr w)"
    using mapped_readMemWord [OF r(3)] by blast
  ultimately show "\<exists>d' a'. writeMems_dv DEBUG page d ws = Inr d' \<and>
         writeMems_arr page' a ws = Inr a' \<and> same_contents d' a' \<and>
         (\<forall>x. mapped (memReadMap d') (heap d') x \<longrightarrow>
            (\<exists>w. snd (readMem_dv DEBUG d' x) = Inr w \<and> snd (readMem_arr a' x) = Inr w)) \<and>
         (\<forall>x. 0 \<le> x \<and> x \<le> 0xFFFF \<and> mapped (memReadMap d') (heap d') x \<and>
              mapped (memReadMap d') (heap d') (x + 1) \<longrightarrow>
            (\<exists>w. snd (readMemWord_dv DEBUG True d' x) = Inr w \<and>
                 snd (readMemWord_arr a' x) = Inr w))"
    using r by blast
next
  fix d'
  assume w: "writeMems_dv DEBUG page d ws = Inr d'"
  from same_contents_writeMems [OF assms(2) assms(1) w]
  obtain a' where a': "writeMems_arr page' a ws = Inr a'" "same_contents d' a'"
    by blast
  have "\<forall>x w. snd (readMem_dv DEBUG d' x) = Inr w \<longrightarrow> snd (readMem_arr a' x) = Inr w"
    using same_contents_readMem [OF a'(2)] by blast
  moreover have "\<forall>x w. 0 \<le> x \<and> x \<le> 0xFFFF \<and> snd (readMemWord_dv DEBUG True d' x) = Inr w \<longrightarrow>
        snd (readMemWord_arr a' x) = Inr w"
    using same_contents_readMemWord [OF a'(2)] by blast
  ultimately show "\<exists>a'. writeMems_arr page' a ws = Inr a' \<and> same_contents d' a' \<and>
         (\<forall>x w. snd (readMem_dv DEBUG d' x) = Inr w \<longrightarrow> snd (readMem_arr a' x) = Inr w) \<and>
         (\<forall>x w. 0 \<le> x \<and> x \<le> 0xFFFF \<and> snd (readMemWord_dv DEBUG True d' x) = Inr w \<longrightarrow>
            snd (readMemWord_arr a' x) = Inr w)"
    using a' by blast
qed

theorem strategies_agree_witness:
  "\<exists>d' a'. writeMems_dv False page_rebind0 full_dv [(0x0003, 0x7F), (0xFFFD, 0x1FF)] = Inr d' \<and>
     writeMems_arr page_rebind0 full_arr [(0x0003, 0x7F), (0xFFFD, 0x1FF)] = Inr a' \<and>
     snd (readMem_dv False d' 0xFFFD) = Inr 0xFF \<and>
     snd (readMem_arr a' 0xFFFD) = Inr 0xFF \<and>
     snd (readMemWord_dv False True d' 0x0002) = Inr 0x0202 \<and>
     snd (readMemWord_arr a' 0x0002) = Inr 0x0202"
proof -
  let ?ws = "[(0x0003, 0x7F), (0xFFFD, 0x1FF)] :: (int \<times> int) list"
  have e: "js_sar 3 10 = 0" "js_and 3 0x3FF = 3" "js_sar 0xFFFD 10 = 63"
    "js_and 0xFFFD 0x3FF = 0x3FD" "js_and 0xFFFD 3 = 1" "js_sar 2 10 = 0" "js_and 2 0x3FF = 2"
    by (simp_all add: js_sar_def js_and_def ToInt32_def)
  have l: "lookup (map Some [0..<64]) 0 = Some 0" "lookup (map Some [0..<64]) 63 = Some 63"
    "lookup ((map Some [0..<64])[0 := Some 1]) 0 = Some 1"
    "lookup ((map Some [0..<64])[0 := Some 1]) 63 = Some 63"
    "lookup ((map Some [0..<64])[0 := Some (Suc 0)]) 0 = Some 1"
    "lookup ((map Some [0..<64])[0 := Some (Suc 0)]) 63 = Some 63"
    by (simp_all add: lookup_def)
  have ev: "\<exists>c. writeMems_dv False page_rebind0 full_dv ?ws = Inr c \<and>
      snd (readMem_dv False c 0xFFFD) = Inr 0xFF \<and>
      snd (readMemWord_dv False True c 0x0002) = Inr 0x0202 \<and>
      mapped (memReadMap c) (heap c) 0xFFFD \<and> mapped (memReadMap c) (heap c) 0x0002 \<and>
      mapped (memReadMap c) (heap c) (0x0002 + 1)"
    by (simp add: writeMem_dv_def readMem_dv_def readMemWord_dv_def full_dv_def mapped_def
        page_rebind0_def debug_check_def e l setInt8_def getUint8_def getUint16_def
        byteLength_def Let_def)
  then obtain c where c: "writeMems_dv False page_rebind0 full_dv ?ws = Inr c"
    "snd (readMem_dv False c 0xFFFD) = Inr 0xFF"
    "snd (readMemWord_dv False True c 0x0002) = Inr 0x0202"
    "mapped (memReadMap c) (heap c) 0xFFFD" "mapped (memReadMap c) (heap c) 0x0002"
    "mapped (memReadMap c) (heap c) (0x0002 + 1)"
    by blast
  have b: "js_and (ToInt32v (Some (int r + 1))) 0xFF = uint (word_of_nat (r + 1) :: 8 word)" for r
    by (simp add: js_byte_word add.commute)
  have sc: "same_contents full_dv full_arr"
    unfolding same_contents_def
  proof (intro conjI allI impI)
    fix r i
    assume "i < length (heap full_dv r)"
    then have "i < 1024" by (simp add: full_dv_def)
    then show "js_and (ToInt32v (heap full_arr r (int i))) 0xFF = uint (heap full_dv r ! i)"
      using b [of r] by (simp add: full_dv_def full_arr_def)
  qed (simp_all add: full_dv_def full_arr_def)
  have pg: "\<forall>k v (s :: dataview cpu) (t :: jsarray cpu).
      same_contents s t \<longrightarrow> same_contents (page_rebind0 k v s) (page_rebind0 k v t)"
    by (simp add: page_rebind0_def same_contents_def)
  have pm: "\<forall>k v (s :: dataview cpu) y. mapped (memWriteMap s) (heap s) y \<longrightarrow>
      mapped (memWriteMap (page_rebind0 k v s)) (heap (page_rebind0 k v s)) y"
    by (simp add: page_rebind0_def)
  have ms: "\<forall>(x, v) \<in> set ?ws. mapped (memWriteMap full_dv) (heap full_dv) x"
    by (simp add: mapped_def full_dv_def e l byteLength_def)
  note t = strategies_agree [OF sc pg, of False ?ws, THEN conjunct2, THEN conjunct2,
      THEN conjunct2, THEN conjunct1, rule_format, OF conjI, OF pm ms]
  then obtain d' a' where r: "writeMems_dv False page_rebind0 full_dv ?ws = Inr d'"
    "writeMems_arr page_rebind0 full_arr ?ws = Inr a'"
    "\<forall>x. mapped (memReadMap d') (heap d') x \<longrightarrow>
       (\<exists>w. snd (readMem_dv False d' x) = Inr w \<and> snd (readMem_arr a' x) = Inr w)"
    "\<forall>x. 0 \<le> x \<and> x \<le> 0xFFFF \<and> mapped (memReadMap d') (heap d') x \<and>
         mapped (memReadMap d') (heap d') (x + 1) \<longrightarrow>
       (\<exists>w. snd (readMemWord_dv False True d' x) = Inr w \<and> snd (readMemWord_arr a' x) = Inr w)"
    by blast
  have dc: "d' = c" using r(1) c(1) by simp
  have "snd (readMem_arr a' 0xFFFD) = Inr 0xFF"
    using r(3) [rule_format, of "0xFFFD"] c(2,4) by (auto simp add: dc)
  moreover have "snd (readMemWord_arr a' 0x0002) = Inr 0x0202"
    using r(4) [rule_format, of "0x0002"] c(3,5,6) by (auto simp add: dc)
  ultimately show ?thesis using r(1,2) c(2,3) dc by blast
qed

text \<open>
  The agreement on words rests on \<open>LITTLE_ENDIAN\<close>: were it false, \<open>getUint16\<close> would read
  a word inside a page high byte first, which the array closure never does.
\<close>

lemma readMemWord_big_endian:
  "readMemWord_dv False True digits_page_dv 0x0002 = ([], Inr 0x0403) \<and>
   readMemWord_dv False False digits_page_dv 0x0002 = ([], Inr 0x0304) \<and>
   readMemWord_arr digits_page_arr 0x0002 = ([], Inr 0x0403)"
  by (simp add: readMemWord_dv_def readMemWord_arr_def digits_page_dv_def digits_page_arr_def
      digits_dv_def digits_arr_def debug_check_def lookup_def getUint16_def byteLength_def
      js_sar_def js_and_def js_or_def js_shl_def ToInt32_def ToInt32v_def Let_def)

end
